theory Spec2Isabelle
  imports Main
begin

section \<open>Monotonic sections of a geometry (sectionalize.hpp)\<close>

text \<open>
  A shallow embedding of \<^verbatim>\<open>boost/geometry/algorithms/detail/sections/sectionalize.hpp\<close>.

  The C++ is generic in the point type. Here \<^verbatim>\<open>coordinate_type\<close> is the 32-bit \<^verbatim>\<open>int\<close>: a
  coordinate is the integer that it holds, and a difference of two coordinates is taken
  in \<^verbatim>\<open>coordinate_type\<close>, where it wraps around when it leaves the range. A point is the
  list of its coordinates, and the template parameters travel as ordinary arguments,
  always in this order:
  \<^item> \<open>equals\<close>: \<^verbatim>\<open>geometry::math::equals\<close>, the tolerance-aware comparison of util/math.hpp,
    which is not part of the unit and is therefore left open;
  \<^item> \<open>PointDimension\<close>: \<^verbatim>\<open>geometry::dimension<Point>::type::value\<close>;
  \<^item> \<open>DimensionCount\<close>: the number of tracked dimensions of a section;
  \<^item> \<open>MaxCount\<close>: the cap on the length of a run.

  The \<^verbatim>\<open>int\<close> fields of a section and the counters of the builder are unbounded integers
  and \<^verbatim>\<open>std::size_t\<close> fields are naturals: they only count the segments of one range, so
  the model describes ranges of fewer than \<open>2^31\<close> points, where no counter overflows.
\<close>

subsection \<open>Points, segments and boxes\<close>

type_synonym coordinate_type = int

type_synonym point = "coordinate_type list"

text \<open>\<^verbatim>\<open>model::referring_segment\<close>: the pair of its first and second point.\<close>

type_synonym segment_type = "point \<times> point"

text \<open>\<^verbatim>\<open>geometry::get<Index, Dimension>(seg)\<close> for \<open>Index\<close> 0 and 1.\<close>

definition get :: "nat \<Rightarrow> nat \<Rightarrow> segment_type \<Rightarrow> coordinate_type" where
  "get Index Dimension seg =
     (if Index = 0 then fst seg ! Dimension else snd seg ! Dimension)"

text \<open>
  The difference of two coordinates as lines 114 and 188 compute it, in
  \<^verbatim>\<open>coordinate_type\<close>: the difference of the two integers, wrapped into the range from
  \<open>-2^31\<close> to \<open>2^31 - 1\<close>.
\<close>

definition coordinate_minus :: "coordinate_type \<Rightarrow> coordinate_type \<Rightarrow> coordinate_type" where
  "coordinate_minus a b = (a - b + 2 ^ 31) mod 2 ^ 32 - 2 ^ 31"

text \<open>
  Modelled from the spec: the box of a section and the primitives \<^verbatim>\<open>assign_inverse\<close> and
  \<^verbatim>\<open>combine\<close> (algorithms/assign.hpp and algorithms/combine.hpp are not part of the unit).
  The spec describes an explicit pure function \<open>union(box, point) -> box\<close> with an
  "empty/inverted" sentinel as its identity element: \<open>Inverse\<close> is that sentinel, and
  \<open>Box lo hi\<close> is the box with minimum corner \<open>lo\<close> and maximum corner \<open>hi\<close>.
\<close>

datatype box = Inverse | Box point point

definition assign_inverse :: box where
  "assign_inverse = Inverse"

fun combine :: "box \<Rightarrow> point \<Rightarrow> box" where
  "combine Inverse p = Box p p"
| "combine (Box lo hi) p = Box (map2 min lo p) (map2 max hi p)"

text \<open>A point lies within a box when every coordinate lies between the two corners.\<close>

fun within_box :: "point \<Rightarrow> box \<Rightarrow> bool" where
  "within_box p Inverse = False"
| "within_box p (Box lo hi) = (list_all2 (\<le>) lo p \<and> list_all2 (\<le>) p hi)"

subsection \<open>The section\<close>

record section_type =
  section_id :: int
  directions :: "int list"
  ring_index :: int
  multi_index :: int
  bounding_box :: box
  begin_index :: int
  end_index :: int
  count :: nat
  range_count :: nat
  duplicate :: bool
  non_duplicate_index :: int

text \<open>The constructor \<^verbatim>\<open>section::section()\<close>.\<close>

definition section_ctor :: "nat \<Rightarrow> section_type" where
  "section_ctor DimensionCount =
     \<lparr> section_id = -1,
       directions = replicate DimensionCount 0,
       ring_index = -99,
       multi_index = -99,
       bounding_box = assign_inverse,
       begin_index = -1,
       end_index = -1,
       count = 0,
       range_count = 0,
       duplicate = False,
       non_duplicate_index = -1 \<rparr>"

subsection \<open>The loop over the dimensions\<close>

text \<open>
  Each loop is a template recursion from \<open>Dimension\<close> up to \<open>DimensionCount\<close>, where the
  specialisation for \<open>Dimension = DimensionCount\<close> ends it. The unit instantiates every
  loop at \<open>Dimension = 0\<close>, so \<open>Dimension \<le> DimensionCount\<close> throughout.
\<close>

function get_direction_loop ::
  "segment_type \<Rightarrow> nat \<Rightarrow> nat \<Rightarrow> int list \<Rightarrow> int list" where
  "get_direction_loop seg Dimension DimensionCount dirs =
     (if Dimension < DimensionCount then
        (let diff = coordinate_minus (get 1 Dimension seg) (get 0 Dimension seg);
             zero = 0
         in get_direction_loop seg (Suc Dimension) DimensionCount
              (dirs[Dimension := (if diff > zero then 1 else if diff < zero then -1 else 0)]))
      else dirs)"
  by pat_completeness auto
termination
  by (relation "measure (\<lambda>(seg, Dimension, DimensionCount, dirs). DimensionCount - Dimension)") auto

declare get_direction_loop.simps [simp del]

function copy_loop :: "int list \<Rightarrow> int list \<Rightarrow> nat \<Rightarrow> nat \<Rightarrow> int list" where
  "copy_loop source target Dimension DimensionCount =
     (if Dimension < DimensionCount then
        copy_loop source (target[Dimension := source ! Dimension]) (Suc Dimension) DimensionCount
      else target)"
  by pat_completeness auto
termination
  by (relation "measure (\<lambda>(source, target, Dimension, DimensionCount). DimensionCount - Dimension)") auto

declare copy_loop.simps [simp del]

function compare_loop :: "int list \<Rightarrow> int list \<Rightarrow> nat \<Rightarrow> nat \<Rightarrow> bool" where
  "compare_loop source target Dimension DimensionCount =
     (if Dimension < DimensionCount then
        (let not_equal = (target ! Dimension \<noteq> source ! Dimension)
         in if not_equal then False
            else compare_loop source target (Suc Dimension) DimensionCount)
      else True)"
  by pat_completeness auto
termination
  by (relation "measure (\<lambda>(source, target, Dimension, DimensionCount). DimensionCount - Dimension)") auto

declare compare_loop.simps [simp del]

function check_duplicate_loop ::
  "(coordinate_type \<Rightarrow> coordinate_type \<Rightarrow> bool) \<Rightarrow> segment_type \<Rightarrow> nat \<Rightarrow> nat \<Rightarrow> bool" where
  "check_duplicate_loop equals seg Dimension DimensionCount =
     (if Dimension < DimensionCount then
        (let diff = coordinate_minus (get 1 Dimension seg) (get 0 Dimension seg);
             zero = 0
         in if \<not> equals diff zero then False
            else check_duplicate_loop equals seg (Suc Dimension) DimensionCount)
      else True)"
  by pat_completeness auto
termination
  by (relation "measure (\<lambda>(equals, seg, Dimension, DimensionCount). DimensionCount - Dimension)") auto

declare check_duplicate_loop.simps [simp del]

function assign_loop :: "int list \<Rightarrow> int \<Rightarrow> nat \<Rightarrow> nat \<Rightarrow> int list" where
  "assign_loop dims v Dimension DimensionCount =
     (if Dimension < DimensionCount then
        assign_loop (dims[Dimension := v]) v (Suc Dimension) DimensionCount
      else dims)"
  by pat_completeness auto
termination
  by (relation "measure (\<lambda>(dims, v, Dimension, DimensionCount). DimensionCount - Dimension)") auto

declare assign_loop.simps [simp del]

subsection \<open>The section builder: \<^verbatim>\<open>sectionalize_part::apply\<close>\<close>

text \<open>
  The state the loop carries: the output collection, the section in progress, the
  segment index and the count of non-duplicate segments.
\<close>

type_synonym part_state = "section_type list \<times> section_type \<times> int \<times> int"

text \<open>
  Lines 271 to 303: the direction classes of a segment and its duplicate flag. The
  duplicate check runs over the dimensions of the point, not over the tracked ones.
\<close>

definition classify_segment ::
  "(coordinate_type \<Rightarrow> coordinate_type \<Rightarrow> bool) \<Rightarrow> nat \<Rightarrow> nat \<Rightarrow> segment_type
     \<Rightarrow> bool \<times> int list" where
  "classify_segment equals PointDimension DimensionCount seg =
     (let direction_classes =
            get_direction_loop seg 0 DimensionCount (replicate DimensionCount 0)
      in if direction_classes ! 0 = 0 then
           if check_duplicate_loop equals seg 0 PointDimension then
             (True, assign_loop direction_classes (-99) 0 DimensionCount)
           else (False, direction_classes)
         else (False, direction_classes))"

text \<open>Lines 305 to 316: the in-progress section is pushed and a new one is started.\<close>

definition flush_section ::
  "nat \<Rightarrow> nat \<Rightarrow> int list \<Rightarrow> section_type list \<times> section_type
     \<Rightarrow> section_type list \<times> section_type" where
  "flush_section DimensionCount MaxCount direction_classes ss =
     (case ss of (sections, section) \<Rightarrow>
        if count section > 0
           \<and> (\<not> compare_loop direction_classes (directions section) 0 DimensionCount
                \<or> count section > MaxCount)
        then (sections @ [section], section_ctor DimensionCount)
        else (sections, section))"

text \<open>Lines 318 to 332: the bookkeeping of the first segment of a section.\<close>

definition start_section ::
  "nat \<Rightarrow> nat \<Rightarrow> int \<Rightarrow> int \<Rightarrow> int \<Rightarrow> int \<Rightarrow> bool \<Rightarrow> int list \<Rightarrow> point
     \<Rightarrow> section_type \<Rightarrow> section_type" where
  "start_section DimensionCount range_size ring_idx multi_idx index ndi dup direction_classes
       previous section =
     (if count section = 0 then
        section\<lparr> begin_index := index,
                 ring_index := ring_idx,
                 multi_index := multi_idx,
                 duplicate := dup,
                 non_duplicate_index := ndi,
                 range_count := range_size,
                 directions := copy_loop direction_classes (directions section) 0 DimensionCount,
                 bounding_box := combine (bounding_box section) previous \<rparr>
      else section)"

text \<open>Lines 334 to 336: the segment is appended to the section.\<close>

definition append_segment :: "int \<Rightarrow> point \<Rightarrow> section_type \<Rightarrow> section_type" where
  "append_segment index it section =
     section\<lparr> bounding_box := combine (bounding_box section) it,
              end_index := index + 1,
              count := count section + 1 \<rparr>"

text \<open>The body of the loop, for the segment from \<open>previous\<close> to \<open>it\<close>.\<close>

definition sectionalize_part_body ::
  "(coordinate_type \<Rightarrow> coordinate_type \<Rightarrow> bool) \<Rightarrow> nat \<Rightarrow> nat \<Rightarrow> nat
     \<Rightarrow> nat \<Rightarrow> int \<Rightarrow> int \<Rightarrow> point \<Rightarrow> point \<Rightarrow> part_state \<Rightarrow> part_state" where
  "sectionalize_part_body equals PointDimension DimensionCount MaxCount
       range_size ring_idx multi_idx previous it st =
     (case st of (sections, section, index, ndi) \<Rightarrow>
        (case classify_segment equals PointDimension DimensionCount (previous, it) of
           (dup, direction_classes) \<Rightarrow>
             (case flush_section DimensionCount MaxCount direction_classes (sections, section) of
                (sections', section') \<Rightarrow>
                  (sections',
                   append_segment index it
                     (start_section DimensionCount range_size ring_idx multi_idx index ndi dup
                        direction_classes previous section'),
                   index,
                   if \<not> dup then ndi + 1 else ndi))))"

text \<open>
  The loop \<^verbatim>\<open>for (previous = it++; it != end; ++previous, ++it, index++)\<close>: the list is
  what the iterator \<open>it\<close> has still to visit.
\<close>

fun sectionalize_part_loop ::
  "(coordinate_type \<Rightarrow> coordinate_type \<Rightarrow> bool) \<Rightarrow> nat \<Rightarrow> nat \<Rightarrow> nat
     \<Rightarrow> nat \<Rightarrow> int \<Rightarrow> int \<Rightarrow> point \<Rightarrow> point list \<Rightarrow> part_state \<Rightarrow> part_state" where
  "sectionalize_part_loop equals PointDimension DimensionCount MaxCount
       range_size ring_idx multi_idx previous [] st = st"
| "sectionalize_part_loop equals PointDimension DimensionCount MaxCount
       range_size ring_idx multi_idx previous (it # rest) st =
     (case sectionalize_part_body equals PointDimension DimensionCount MaxCount
             range_size ring_idx multi_idx previous it st of
        (sections, section, index, ndi) \<Rightarrow>
          sectionalize_part_loop equals PointDimension DimensionCount MaxCount
            range_size ring_idx multi_idx it rest (sections, section, index + 1, ndi))"

text \<open>
  \<^verbatim>\<open>sectionalize_part::apply\<close>. The unit calls it with \<open>index = 0\<close> only; the iterator is
  moved \<open>index\<close> places from the beginning of the range.
\<close>

definition sectionalize_part ::
  "(coordinate_type \<Rightarrow> coordinate_type \<Rightarrow> bool) \<Rightarrow> nat \<Rightarrow> nat \<Rightarrow> nat
     \<Rightarrow> part_state \<Rightarrow> point list \<Rightarrow> int \<Rightarrow> int \<Rightarrow> part_state" where
  "sectionalize_part equals PointDimension DimensionCount MaxCount st rng ring_idx multi_idx =
     (case st of (sections, section, index, ndi) \<Rightarrow>
        if int (length rng) \<le> index then (sections, section, index, ndi)
        else
          (let ndi' = (if index = 0 then 0 else ndi);
               it = drop (nat index) rng
           in sectionalize_part_loop equals PointDimension DimensionCount MaxCount
                (length rng) ring_idx multi_idx (hd it) (tl it)
                (sections, section, index, ndi')))"

subsection \<open>The range sectionizer: \<^verbatim>\<open>sectionalize_range::apply\<close>\<close>

datatype closure_selector = Closed | Open

text \<open>
  Modelled from the spec: \<^verbatim>\<open>closeable_view\<close> (util/closeable_view.hpp is not part of the
  unit). A range whose closure is \<open>Closed\<close> already ends with its first point and is viewed
  as it is; for a range whose closure is \<open>Open\<close> the first point is virtually repeated at
  the end.
\<close>

definition closeable_view :: "closure_selector \<Rightarrow> point list \<Rightarrow> point list" where
  "closeable_view Closure rng =
     (case Closure of
        Closed \<Rightarrow> rng
      | Open \<Rightarrow> (if rng = [] then [] else rng @ [hd rng]))"

definition sectionalize_range ::
  "(coordinate_type \<Rightarrow> coordinate_type \<Rightarrow> bool) \<Rightarrow> nat \<Rightarrow> nat \<Rightarrow> nat
     \<Rightarrow> closure_selector \<Rightarrow> point list \<Rightarrow> section_type list \<Rightarrow> int \<Rightarrow> int
     \<Rightarrow> section_type list" where
  "sectionalize_range equals PointDimension DimensionCount MaxCount Closure rng sections
       ring_idx multi_idx =
     (let view = closeable_view Closure rng;
          n = length view
      in if n = 0 then sections
         else if n = 1 then sections
         else
           (case sectionalize_part equals PointDimension DimensionCount MaxCount
                   (sections, section_ctor DimensionCount, 0, 0) view ring_idx multi_idx of
              (sections', section, index, ndi) \<Rightarrow>
                if count section > 0 then sections' @ [section] else sections'))"

subsection \<open>Polygons and boxes\<close>

text \<open>The loop of \<^verbatim>\<open>sectionalize_polygon::apply\<close> over the interior rings, \<open>i\<close> counting them.\<close>

fun sectionalize_interior_rings ::
  "(coordinate_type \<Rightarrow> coordinate_type \<Rightarrow> bool) \<Rightarrow> nat \<Rightarrow> nat \<Rightarrow> nat
     \<Rightarrow> closure_selector \<Rightarrow> int \<Rightarrow> int \<Rightarrow> point list list \<Rightarrow> section_type list
     \<Rightarrow> section_type list" where
  "sectionalize_interior_rings equals PointDimension DimensionCount MaxCount Closure
       multi_idx i [] sections = sections"
| "sectionalize_interior_rings equals PointDimension DimensionCount MaxCount Closure
       multi_idx i (it # rings) sections =
     sectionalize_interior_rings equals PointDimension DimensionCount MaxCount Closure
       multi_idx (i + 1) rings
       (sectionalize_range equals PointDimension DimensionCount MaxCount Closure it sections
          i multi_idx)"

definition sectionalize_polygon ::
  "(coordinate_type \<Rightarrow> coordinate_type \<Rightarrow> bool) \<Rightarrow> nat \<Rightarrow> nat \<Rightarrow> nat
     \<Rightarrow> closure_selector \<Rightarrow> point list \<Rightarrow> point list list \<Rightarrow> section_type list \<Rightarrow> int
     \<Rightarrow> section_type list" where
  "sectionalize_polygon equals PointDimension DimensionCount MaxCount Closure
       exterior_ring interior_rings sections multi_idx =
     sectionalize_interior_rings equals PointDimension DimensionCount MaxCount Closure
       multi_idx 0 interior_rings
       (sectionalize_range equals PointDimension DimensionCount MaxCount Closure exterior_ring
          sections (-1) multi_idx)"

text \<open>The box that is sectionalized: its minimum and its maximum corner.\<close>

record box_geometry =
  min_corner :: point
  max_corner :: point

text \<open>
  Modelled from the spec: \<^verbatim>\<open>assign_box_corners\<close> (algorithms/assign.hpp is not part of the
  unit), which gives the four corners of a two-dimensional box in the order lower left,
  lower right, upper left, upper right.
\<close>

definition assign_box_corners :: "box_geometry \<Rightarrow> point \<times> point \<times> point \<times> point" where
  "assign_box_corners b =
     ([min_corner b ! 0, min_corner b ! 1],
      [max_corner b ! 0, min_corner b ! 1],
      [min_corner b ! 0, max_corner b ! 1],
      [max_corner b ! 0, max_corner b ! 1])"

text \<open>The five points that \<^verbatim>\<open>sectionalize_box::apply\<close> pushes.\<close>

definition box_points :: "box_geometry \<Rightarrow> point list" where
  "box_points b =
     (case assign_box_corners b of (ll, lr, ul, ur) \<Rightarrow> [ll, ul, ur, lr, ll])"

text \<open>
  \<^verbatim>\<open>sectionalize_box::apply\<close>. The point of a box has two dimensions
  (\<^verbatim>\<open>assert_dimension<Box, 2>\<close>), and the ring and multi index are the defaults, -1.
\<close>

definition sectionalize_box ::
  "(coordinate_type \<Rightarrow> coordinate_type \<Rightarrow> bool) \<Rightarrow> nat \<Rightarrow> nat
     \<Rightarrow> box_geometry \<Rightarrow> section_type list \<Rightarrow> section_type list" where
  "sectionalize_box equals DimensionCount MaxCount b sections =
     sectionalize_range equals 2 DimensionCount MaxCount Closed (box_points b) sections (-1) (-1)"

subsection \<open>Unique ids, dispatch and \<^verbatim>\<open>sectionalize\<close>\<close>

fun set_section_unique_ids_loop :: "int \<Rightarrow> section_type list \<Rightarrow> section_type list" where
  "set_section_unique_ids_loop index [] = []"
| "set_section_unique_ids_loop index (it # rest) =
     it\<lparr>section_id := index\<rparr> # set_section_unique_ids_loop (index + 1) rest"

definition set_section_unique_ids :: "section_type list \<Rightarrow> section_type list" where
  "set_section_unique_ids sections = set_section_unique_ids_loop 0 sections"

text \<open>The geometries for which \<^verbatim>\<open>dispatch::sectionalize\<close> is specialised.\<close>

datatype geometry =
    Box_geometry box_geometry
  | Linestring "point list"
  | Ring closure_selector "point list"
  | Polygon closure_selector "point list" "point list list"

fun dispatch_sectionalize ::
  "(coordinate_type \<Rightarrow> coordinate_type \<Rightarrow> bool) \<Rightarrow> nat \<Rightarrow> nat \<Rightarrow> nat
     \<Rightarrow> geometry \<Rightarrow> section_type list \<Rightarrow> section_type list" where
  "dispatch_sectionalize equals PointDimension DimensionCount MaxCount (Box_geometry b) sections =
     sectionalize_box equals DimensionCount MaxCount b sections"
| "dispatch_sectionalize equals PointDimension DimensionCount MaxCount (Linestring ls) sections =
     sectionalize_range equals PointDimension DimensionCount MaxCount Closed ls sections (-1) (-1)"
| "dispatch_sectionalize equals PointDimension DimensionCount MaxCount (Ring Closure r) sections =
     sectionalize_range equals PointDimension DimensionCount MaxCount Closure r sections (-1) (-1)"
| "dispatch_sectionalize equals PointDimension DimensionCount MaxCount (Polygon Closure ext ints)
       sections =
     sectionalize_polygon equals PointDimension DimensionCount MaxCount Closure ext ints
       sections (-1)"

definition max_segments_per_section :: nat where
  "max_segments_per_section = 10"

text \<open>
  \<^verbatim>\<open>sectionalize\<close>: the collection handed in is cleared, filled by the dispatcher and
  numbered.
\<close>

definition sectionalize ::
  "(coordinate_type \<Rightarrow> coordinate_type \<Rightarrow> bool) \<Rightarrow> nat \<Rightarrow> nat
     \<Rightarrow> geometry \<Rightarrow> section_type list \<Rightarrow> section_type list" where
  "sectionalize equals PointDimension DimensionCount g sections =
     (let cleared = [] :: section_type list
      in set_section_unique_ids
           (dispatch_sectionalize equals PointDimension DimensionCount
              max_segments_per_section g cleared))"

subsection \<open>Notions used in the properties\<close>

text \<open>
  The direction-sign vector of a segment as the spec words it: for each tracked
  dimension the sign, +1, -1 or 0, of the end coordinate minus the start coordinate,
  the difference being the one that \<^verbatim>\<open>coordinate_type\<close> computes.
\<close>

definition segment_directions :: "nat \<Rightarrow> segment_type \<Rightarrow> int list" where
  "segment_directions DimensionCount seg =
     map (\<lambda>d. sgn (coordinate_minus (snd seg ! d) (fst seg ! d))) [0..<DimensionCount]"

text \<open>
  The signs of the differences of the integers themselves, and the segments for which
  \<^verbatim>\<open>coordinate_type\<close> holds these differences in every tracked dimension.
\<close>

definition exact_directions :: "nat \<Rightarrow> segment_type \<Rightarrow> int list" where
  "exact_directions DimensionCount seg =
     map (\<lambda>d. sgn (snd seg ! d - fst seg ! d)) [0..<DimensionCount]"

definition difference_representable :: "nat \<Rightarrow> segment_type \<Rightarrow> bool" where
  "difference_representable DimensionCount seg =
     list_all (\<lambda>d. - (2 ^ 31) \<le> snd seg ! d - fst seg ! d \<and> snd seg ! d - fst seg ! d < 2 ^ 31)
       [0..<DimensionCount]"

text \<open>A coordinate that a 32-bit \<^verbatim>\<open>int\<close> holds.\<close>

definition representable :: "coordinate_type \<Rightarrow> bool" where
  "representable c \<longleftrightarrow> - (2 ^ 31) \<le> c \<and> c < 2 ^ 31"

text \<open>The segment with index \<open>i\<close> of a view: from point \<open>i\<close> to point \<open>i + 1\<close>.\<close>

definition seg_of :: "point list \<Rightarrow> nat \<Rightarrow> segment_type" where
  "seg_of view i = (view ! i, view ! Suc i)"

text \<open>The points that the segments of a section touch.\<close>

definition run_points :: "point list \<Rightarrow> section_type \<Rightarrow> point list" where
  "run_points view s = take (Suc (count s)) (drop (nat (begin_index s)) view)"

text \<open>
  What holds of a section, pushed or in progress, that the builder has cut from a view.
\<close>

definition section_of_view ::
  "nat \<Rightarrow> nat \<Rightarrow> point list \<Rightarrow> int \<Rightarrow> int \<Rightarrow> section_type \<Rightarrow> bool" where
  "section_of_view D MaxCount view ring_idx multi_idx s \<longleftrightarrow>
     0 \<le> begin_index s \<and> 1 \<le> count s \<and> end_index s = begin_index s + int (count s)
     \<and> count s \<le> Suc MaxCount
     \<and> nat (end_index s) < length view
     \<and> length (directions s) = D
     \<and> (duplicate s \<longrightarrow> directions s = replicate D (-99))
     \<and> (\<not> duplicate s \<longrightarrow>
          (\<forall>i. nat (begin_index s) \<le> i \<and> i < nat (end_index s)
             \<longrightarrow> directions s = segment_directions D (seg_of view i)))
     \<and> bounding_box s = foldl combine Inverse (run_points view s)
     \<and> ring_index s = ring_idx \<and> multi_index s = multi_idx
     \<and> range_count s = length view \<and> section_id s = -1"

text \<open>
  A list of half-open index ranges that starts at \<open>lo\<close>, ends at \<open>hi\<close>, has no empty
  range and no gap.
\<close>

fun chain :: "int \<Rightarrow> (int \<times> int) list \<Rightarrow> int \<Rightarrow> bool" where
  "chain lo [] hi = (lo = hi)"
| "chain lo ((b, e) # rest) hi = (b = lo \<and> b < e \<and> chain e rest hi)"

text \<open>The index range of a section, and the section in progress if it has a segment.\<close>

definition bounds :: "section_type \<Rightarrow> int \<times> int" where
  "bounds s = (begin_index s, end_index s)"

definition in_progress :: "section_type \<Rightarrow> section_type list" where
  "in_progress section = (if count section > 0 then [section] else [])"

text \<open>
  The invariant of the loop of the builder, before it visits the segment with index \<open>k\<close>.
\<close>

definition part_inv ::
  "nat \<Rightarrow> nat \<Rightarrow> point list \<Rightarrow> int \<Rightarrow> int \<Rightarrow> section_type list \<Rightarrow> nat \<Rightarrow> part_state \<Rightarrow> bool" where
  "part_inv D MaxCount view ring_idx multi_idx sections0 k st \<longleftrightarrow>
     (case st of (sections, section, index, ndi) \<Rightarrow>
        index = int k \<and> k < length view
        \<and> (count section = 0 \<longrightarrow> section = section_ctor D)
        \<and> (\<exists>new. sections = sections0 @ new
              \<and> (\<forall>s \<in> set (new @ in_progress section).
                    section_of_view D MaxCount view ring_idx multi_idx s)
              \<and> chain 0 (map bounds (new @ in_progress section)) (int k)))"

text \<open>
  The number of segments of a range of \<open>N\<close> points as the spec counts them: \<open>N - 1\<close>, or
  \<open>N\<close> when the closing point is appended.
\<close>

definition segment_count :: "closure_selector \<Rightarrow> point list \<Rightarrow> int" where
  "segment_count Closure rng =
     (case Closure of Closed \<Rightarrow> int (length rng) - 1 | Open \<Rightarrow> int (length rng))"

text \<open>What holds of a section whatever the view it was cut from.\<close>

definition section_shape :: "nat \<Rightarrow> nat \<Rightarrow> section_type \<Rightarrow> bool" where
  "section_shape D MaxCount s \<longleftrightarrow>
     0 \<le> begin_index s \<and> 1 \<le> count s \<and> end_index s = begin_index s + int (count s)
     \<and> count s \<le> Suc MaxCount
     \<and> length (directions s) = D
     \<and> (duplicate s \<longrightarrow> directions s = replicate D (-99))
     \<and> (\<not> duplicate s \<longrightarrow> set (directions s) \<subseteq> {-1, 0, 1})"

text \<open>A box whose corners, if it has any, have \<open>n\<close> coordinates.\<close>

definition box_dimension :: "nat \<Rightarrow> box \<Rightarrow> bool" where
  "box_dimension n b = (case b of Inverse \<Rightarrow> True | Box lo hi \<Rightarrow> length lo = n \<and> length hi = n)"

text \<open>
  The section in progress after the builder has started it with one segment, from
  \<open>previous\<close> to \<open>it\<close>, with the direction classes \<open>dc\<close> and the duplicate flag \<open>dup\<close>.
\<close>

definition one_segment_section ::
  "nat \<Rightarrow> int \<Rightarrow> int \<Rightarrow> int \<Rightarrow> int \<Rightarrow> bool \<Rightarrow> int list \<Rightarrow> point \<Rightarrow> point \<Rightarrow> section_type" where
  "one_segment_section n ring_idx multi_idx index ndi dup dc previous it =
     \<lparr> section_id = -1,
       directions = dc,
       ring_index = ring_idx,
       multi_index = multi_idx,
       bounding_box = combine (combine Inverse previous) it,
       begin_index = index,
       end_index = index + 1,
       count = 1,
       range_count = n,
       duplicate = dup,
       non_duplicate_index = ndi \<rparr>"

text \<open>Two direction vectors are perpendicular when their dot product is zero.\<close>

definition dot_product :: "int list \<Rightarrow> int list \<Rightarrow> int" where
  "dot_product xs ys = sum_list (map2 (*) xs ys)"

definition perpendicular :: "int list \<Rightarrow> int list \<Rightarrow> bool" where
  "perpendicular xs ys \<longleftrightarrow> dot_product xs ys = 0"

text \<open>
  The four sections of the sides of a box, each of one segment, in the order of the ring
  lower left, upper left, upper right, lower right, lower left, and a box whose four
  corner coordinates a 32-bit \<^verbatim>\<open>int\<close> holds.
\<close>

definition representable_box :: "box_geometry \<Rightarrow> bool" where
  "representable_box b =
     list_all representable
       [min_corner b ! 0, min_corner b ! 1, max_corner b ! 0, max_corner b ! 1]"

definition box_side_sections :: "nat \<Rightarrow> box_geometry \<Rightarrow> section_type list" where
  "box_side_sections D b =
     (let x1 = min_corner b ! 0; y1 = min_corner b ! 1;
          x2 = max_corner b ! 0; y2 = max_corner b ! 1
      in [one_segment_section 5 (-1) (-1) 0 0 False
            (take D [0, sgn (coordinate_minus y2 y1)]) [x1, y1] [x1, y2],
          one_segment_section 5 (-1) (-1) 1 1 False
            (take D [sgn (coordinate_minus x2 x1), 0]) [x1, y2] [x2, y2],
          one_segment_section 5 (-1) (-1) 2 2 False
            (take D [0, sgn (coordinate_minus y1 y2)]) [x2, y2] [x2, y1],
          one_segment_section 5 (-1) (-1) 3 3 False
            (take D [sgn (coordinate_minus x1 x2), 0]) [x2, y1] [x1, y1] ])"

subsection \<open>Sample geometries\<close>

text \<open>
  An open square ring, a line of 13 segments in one direction, a line with a
  zero-length segment between two others, a line of twelve zero-length segments, the
  duplicate section that the first of them starts in a range of three points, and a box.
\<close>

definition square_ring :: "point list" where
  "square_ring = [ [0, 0], [0, 10], [10, 10], [10, 0] ]"

definition long_line :: "point list" where
  "long_line = map (\<lambda>i. [int i, 0]) [0 ..< 14]"

definition line_with_repeated_point :: "point list" where
  "line_with_repeated_point = [ [0, 0], [1, 1], [1, 1], [2, 2] ]"

definition repeated_point_line :: "point list" where
  "repeated_point_line = replicate 13 [7, 7]"

definition duplicate_section :: section_type where
  "duplicate_section = one_segment_section 3 (-1) (-1) 0 0 True [-99, -99] [7, 7] [7, 7]"

definition unit_box :: box_geometry where
  "unit_box = \<lparr> min_corner = [0, 0], max_corner = [10, 10] \<rparr>"

section \<open>Properties\<close>

subsection \<open>The loop over the dimensions\<close>

lemma get_direction_loop_length [simp]:
  "length (get_direction_loop seg d D dirs) = length dirs"
  by (induction seg d D dirs rule: get_direction_loop.induct)
     (subst get_direction_loop.simps, simp add: Let_def)

lemma get_direction_loop_nth:
  "k < length dirs \<Longrightarrow>
   get_direction_loop seg d D dirs ! k =
     (if d \<le> k \<and> k < D then sgn (coordinate_minus (snd seg ! k) (fst seg ! k)) else dirs ! k)"
proof (induction seg d D dirs rule: get_direction_loop.induct)
  case (1 seg d D dirs)
  show ?case
  proof (cases "d < D")
    case True
    then show ?thesis
      using 1 by (subst get_direction_loop.simps)
        (auto simp add: Let_def get_def nth_list_update sgn_if not_less_eq_eq)
  next
    case False
    then show ?thesis by (subst get_direction_loop.simps) simp
  qed
qed

lemma get_direction_loop_eq:
  "get_direction_loop seg 0 D (replicate D 0) = segment_directions D seg"
  by (rule nth_equalityI) (simp_all add: get_direction_loop_nth segment_directions_def)

lemma assign_loop_length [simp]: "length (assign_loop dims v d D) = length dims"
  by (induction dims v d D rule: assign_loop.induct) (subst assign_loop.simps, simp)

lemma assign_loop_nth:
  "k < length dims \<Longrightarrow>
   assign_loop dims v d D ! k = (if d \<le> k \<and> k < D then v else dims ! k)"
proof (induction dims v d D rule: assign_loop.induct)
  case (1 dims v d D)
  show ?case
  proof (cases "d < D")
    case True
    then show ?thesis
      using 1 by (subst assign_loop.simps) (auto simp add: nth_list_update not_less_eq_eq)
  next
    case False
    then show ?thesis by (subst assign_loop.simps) simp
  qed
qed

lemma assign_loop_eq: "length dims = D \<Longrightarrow> assign_loop dims v 0 D = replicate D v"
  by (rule nth_equalityI) (simp_all add: assign_loop_nth)

lemma copy_loop_length [simp]: "length (copy_loop source target d D) = length target"
  by (induction source target d D rule: copy_loop.induct) (subst copy_loop.simps, simp)

lemma copy_loop_nth:
  "k < length target \<Longrightarrow>
   copy_loop source target d D ! k = (if d \<le> k \<and> k < D then source ! k else target ! k)"
proof (induction source target d D rule: copy_loop.induct)
  case (1 source target d D)
  show ?case
  proof (cases "d < D")
    case True
    then show ?thesis
      using 1 by (subst copy_loop.simps) (auto simp add: nth_list_update not_less_eq_eq)
  next
    case False
    then show ?thesis by (subst copy_loop.simps) simp
  qed
qed

lemma copy_loop_eq:
  "length source = D \<Longrightarrow> length target = D \<Longrightarrow> copy_loop source target 0 D = source"
  by (rule nth_equalityI) (simp_all add: copy_loop_nth)

lemma compare_loop_iff:
  "compare_loop source target d D \<longleftrightarrow> (\<forall>k. d \<le> k \<and> k < D \<longrightarrow> target ! k = source ! k)"
proof (induction source target d D rule: compare_loop.induct)
  case (1 source target d D)
  show ?case
  proof (cases "d < D")
    case True
    show ?thesis
    proof (cases "target ! d = source ! d")
      case eq: True
      have "(\<forall>k. d \<le> k \<and> k < D \<longrightarrow> target ! k = source ! k)
            \<longleftrightarrow> (\<forall>k. Suc d \<le> k \<and> k < D \<longrightarrow> target ! k = source ! k)"
        using eq by (metis Suc_leI le_neq_implies_less Suc_leD)
      moreover have "compare_loop source target (Suc d) D
            \<longleftrightarrow> (\<forall>k. Suc d \<le> k \<and> k < D \<longrightarrow> target ! k = source ! k)"
        using 1 [OF True refl] eq by simp
      ultimately show ?thesis
        using True eq by (subst compare_loop.simps) (simp add: Let_def)
    next
      case False
      then show ?thesis
        using True by (subst compare_loop.simps) (auto simp add: Let_def)
    qed
  next
    case False
    then show ?thesis by (subst compare_loop.simps) auto
  qed
qed

lemma compare_loop_eq:
  "length source = D \<Longrightarrow> length target = D \<Longrightarrow>
   compare_loop source target 0 D \<longleftrightarrow> source = target"
  by (auto simp add: compare_loop_iff list_eq_iff_nth_eq)

lemma check_duplicate_loop_iff:
  "check_duplicate_loop equals seg d D \<longleftrightarrow>
     (\<forall>k. d \<le> k \<and> k < D \<longrightarrow> equals (coordinate_minus (snd seg ! k) (fst seg ! k)) 0)"
proof (induction equals seg d D rule: check_duplicate_loop.induct)
  case (1 equals seg d D)
  show ?case
  proof (cases "d < D")
    case True
    show ?thesis
    proof (cases "equals (coordinate_minus (snd seg ! d) (fst seg ! d)) 0")
      case eq: True
      have "(\<forall>k. d \<le> k \<and> k < D \<longrightarrow> equals (coordinate_minus (snd seg ! k) (fst seg ! k)) 0)
            \<longleftrightarrow> (\<forall>k. Suc d \<le> k \<and> k < D \<longrightarrow> equals (coordinate_minus (snd seg ! k) (fst seg ! k)) 0)"
        using eq by (metis Suc_leI le_neq_implies_less Suc_leD)
      moreover have "check_duplicate_loop equals seg (Suc d) D
            \<longleftrightarrow> (\<forall>k. Suc d \<le> k \<and> k < D \<longrightarrow> equals (coordinate_minus (snd seg ! k) (fst seg ! k)) 0)"
        using 1 [OF True refl refl] eq by (simp add: get_def)
      ultimately show ?thesis
        using True eq by (subst check_duplicate_loop.simps) (simp add: Let_def get_def)
    next
      case False
      then show ?thesis
        using True by (subst check_duplicate_loop.simps) (auto simp add: Let_def get_def)
    qed
  next
    case False
    then show ?thesis by (subst check_duplicate_loop.simps) auto
  qed
qed

subsection \<open>Coordinate differences\<close>


lemma coordinate_minus_same [simp]: "coordinate_minus a a = 0"
  by (simp add: coordinate_minus_def)

lemma coordinate_minus_nonzero:
  assumes "representable a" "representable b" "a \<noteq> b"
  shows "coordinate_minus a b \<noteq> 0"
proof
  assume "coordinate_minus a b = 0"
  then have "(a - b + 2 ^ 31) mod 2 ^ 32 = (2 ^ 31 :: int)"
    by (simp add: coordinate_minus_def)
  moreover have "(2 ^ 31 :: int) mod 2 ^ 32 = 2 ^ 31" by simp
  ultimately have "(a - b + 2 ^ 31) mod 2 ^ 32 = (2 ^ 31 :: int) mod 2 ^ 32" by simp
  then have "(2 ^ 32 :: int) dvd (a - b + 2 ^ 31) - 2 ^ 31"
    by (rule mod_eq_dvd_iff [THEN iffD1])
  then have d: "(2 ^ 32 :: int) dvd a - b" by simp
  have "\<bar>a - b\<bar> < 2 ^ 32"
    using assms(1,2) by (simp add: representable_def abs_if)
  moreover have "a - b \<noteq> 0" using assms(3) by simp
  ultimately show False
    using d zdvd_not_zless [of "\<bar>a - b\<bar>" "2 ^ 32"] by (simp add: dvd_abs_iff)
qed


text \<open>
  Where the difference leaves the range, the direction class is the sign of the wrapped
  difference: from -2147483648 to 2147483647 the first coordinate grows, and its class
  is -1.
\<close>

lemma direction_classes_of_wrapped_difference:
  "get_direction_loop ([-2147483648, 0], [2147483647, 0]) 0 2 (replicate 2 0) = [-1, 0]
   \<and> exact_directions 2 ([-2147483648, 0], [2147483647, 0]) = [1, 0]
   \<and> \<not> difference_representable 2 ([-2147483648, 0], [2147483647, 0])"
  by code_simp

subsection \<open>The invariant of the builder\<close>

lemma chain_snoc:
  "chain lo (xs @ [(b, e)]) hi \<longleftrightarrow> chain lo xs b \<and> b < e \<and> e = hi"
  by (induction xs arbitrary: lo) auto

lemma classify_segment_cases:
  assumes "classify_segment equals PD D seg = (dup, dc)"
  shows "dc = (if dup then replicate D (-99) else segment_directions D seg)"
  using assms
  by (auto simp add: classify_segment_def Let_def get_direction_loop_eq assign_loop_eq
        segment_directions_def split: if_splits)

lemma classify_segment_length:
  assumes "classify_segment equals PD D seg = (dup, dc)"
  shows "length dc = D"
  using classify_segment_cases [OF assms] by (simp add: segment_directions_def)

lemma segment_directions_entries:
  "x \<in> set (segment_directions D seg) \<Longrightarrow> x \<in> {-1, 0, 1}"
  by (auto simp add: segment_directions_def sgn_if)

lemma segment_directions_sentinel:
  assumes "segment_directions D seg = replicate D (-99)"
  shows "D = 0"
proof (rule ccontr)
  assume "D \<noteq> 0"
  then have "segment_directions D seg ! 0 \<in> set (segment_directions D seg)"
    by (simp add: segment_directions_def)
  then have "segment_directions D seg ! 0 \<in> {-1, 0, 1}"
    by (rule segment_directions_entries)
  moreover have "segment_directions D seg ! 0 = -99"
    using assms \<open>D \<noteq> 0\<close> by simp
  ultimately show False by simp
qed

text \<open>The section that a segment starts.\<close>

lemma started_section_of_view:
  assumes cl: "classify_segment equals PD D (seg_of view k) = (dup, dc)"
    and k: "Suc k < length view"
  shows "section_of_view D MaxCount view ring_idx multi_idx
           (append_segment (int k) (view ! Suc k)
              (start_section D (length view) ring_idx multi_idx (int k) ndi dup dc (view ! k)
                 (section_ctor D)))"
proof -
  have dc: "dc = (if dup then replicate D (-99) else segment_directions D (seg_of view k))"
    and len: "length dc = D"
    using classify_segment_cases [OF cl] classify_segment_length [OF cl] by simp_all
  have pts: "take (Suc (Suc 0)) (drop k view) = [view ! k, view ! Suc k]"
    using k by (simp add: take_Suc_conv_app_nth)
  have n: "nat (int k + 1) = Suc k" by simp
  have e: "\<And>i. k \<le> i \<Longrightarrow> i < Suc k \<Longrightarrow> i = k" by simp
  show ?thesis
    using dc len pts k
    by (auto simp add: n section_of_view_def append_segment_def start_section_def
          section_ctor_def copy_loop_eq run_points_def assign_inverse_def dest: e)
qed

lemma extended_section_of_view:
  assumes good: "section_of_view D MaxCount view ring_idx multi_idx s"
    and e: "end_index s = int k"
    and cl: "classify_segment equals PD D (seg_of view k) = (dup, dc)"
    and cmp: "compare_loop dc (directions s) 0 D"
    and cnt: "\<not> count s > MaxCount"
    and k: "Suc k < length view"
  shows "section_of_view D MaxCount view ring_idx multi_idx
           (append_segment (int k) (view ! Suc k) s)"
proof -
  let ?s = "append_segment (int k) (view ! Suc k) s"
  have dc: "dc = (if dup then replicate D (-99) else segment_directions D (seg_of view k))"
    and len: "length dc = D"
    using classify_segment_cases [OF cl] classify_segment_length [OF cl] by simp_all
  have b: "0 \<le> begin_index s" and c: "1 \<le> count s"
    and be: "end_index s = begin_index s + int (count s)"
    and ld: "length (directions s) = D"
    using good by (simp_all add: section_of_view_def)
  have same: "dc = directions s"
    using cmp len ld by (simp add: compare_loop_eq)
  have kk: "k = nat (begin_index s) + count s"
    using e be b by linarith
  have n: "nat (int k + 1) = Suc k" by simp
  have pts: "run_points view ?s = run_points view s @ [view ! Suc k]"
  proof -
    have "Suc (count s) < length (drop (nat (begin_index s)) view)"
      using k kk by simp
    then have "take (Suc (Suc (count s))) (drop (nat (begin_index s)) view)
        = take (Suc (count s)) (drop (nat (begin_index s)) view)
          @ [drop (nat (begin_index s)) view ! Suc (count s)]"
      by (rule take_Suc_conv_app_nth)
    moreover have "drop (nat (begin_index s)) view ! Suc (count s) = view ! Suc k"
      using k kk by simp
    ultimately show ?thesis
      by (simp add: run_points_def append_segment_def)
  qed
  have box: "bounding_box ?s = foldl combine Inverse (run_points view ?s)"
    using good pts by (simp add: section_of_view_def append_segment_def)
  have dirs: "directions s = segment_directions D (seg_of view i)"
    if nd: "\<not> duplicate s" and i: "nat (begin_index s) \<le> i" "i < Suc k" for i
  proof (cases "i < k")
    case True
    then show ?thesis
      using good nd i e by (simp add: section_of_view_def)
  next
    case False
    then have ik: "i = k" using i by simp
    show ?thesis
    proof (cases dup)
      case True
      have first: "directions s = segment_directions D (seg_of view (nat (begin_index s)))"
        using good nd c be b by (simp add: section_of_view_def)
      have "D = 0"
        using first same dc True segment_directions_sentinel by metis
      then show ?thesis
        using ld by (simp add: segment_directions_def)
    next
      case False
      then show ?thesis using same dc ik by simp
    qed
  qed
  show ?thesis
    unfolding section_of_view_def
  proof (intro conjI)
    show "bounding_box ?s = foldl combine Inverse (run_points view ?s)" by (rule box)
    show "\<not> duplicate ?s \<longrightarrow>
          (\<forall>i. nat (begin_index ?s) \<le> i \<and> i < nat (end_index ?s)
             \<longrightarrow> directions ?s = segment_directions D (seg_of view i))"
      using dirs by (simp add: append_segment_def n)
  qed (use good e be cnt k in \<open>simp_all add: section_of_view_def append_segment_def n\<close>)
qed

lemma part_body_inv:
  assumes inv: "part_inv D MaxCount view ring_idx multi_idx sections0 k st"
    and k: "Suc k < length view"
    and body: "sectionalize_part_body equals PD D MaxCount (length view) ring_idx multi_idx
                 (view ! k) (view ! Suc k) st = (sections', sec', index', ndi')"
  shows "part_inv D MaxCount view ring_idx multi_idx sections0 (Suc k)
           (sections', sec', index' + 1, ndi')"
proof -
  obtain sections sec index ndi where st: "st = (sections, sec, index, ndi)"
    by (cases st) auto
  obtain dup dc where cl: "classify_segment equals PD D (seg_of view k) = (dup, dc)"
    by (cases "classify_segment equals PD D (seg_of view k)") auto
  have cl': "classify_segment equals PD D (view ! k, view ! Suc k) = (dup, dc)"
    using cl by (simp add: seg_of_def)
  from inv st obtain new where
    idx: "index = int k"
    and fresh: "count sec = 0 \<longrightarrow> sec = section_ctor D"
    and new: "sections = sections0 @ new"
    and good: "\<forall>s \<in> set (new @ in_progress sec).
                 section_of_view D MaxCount view ring_idx multi_idx s"
    and ch: "chain 0 (map bounds (new @ in_progress sec)) (int k)"
    by (auto simp add: part_inv_def)
  let ?started = "append_segment (int k) (view ! Suc k)
       (start_section D (length view) ring_idx multi_idx (int k) ndi dup dc (view ! k)
          (section_ctor D))"
  have started: "section_of_view D MaxCount view ring_idx multi_idx ?started"
    by (rule started_section_of_view [OF cl k])
  have started_bounds: "bounds ?started = (int k, int k + 1)"
    and started_count: "count ?started = Suc 0"
    by (simp_all add: bounds_def append_segment_def start_section_def section_ctor_def)
  consider
    (flush) "count sec > 0"
      "\<not> compare_loop dc (directions sec) 0 D \<or> count sec > MaxCount"
    | (empty) "count sec = 0"
    | (extend) "count sec > 0" "compare_loop dc (directions sec) 0 D"
      "\<not> count sec > MaxCount"
    by blast
  then show ?thesis
  proof cases
    case flush
    have res: "sections' = sections @ [sec]" "sec' = ?started" "index' = int k"
      using body st cl' flush idx
      by (auto simp add: sectionalize_part_body_def flush_section_def)
    have ip: "in_progress sec = [sec]" "in_progress ?started = [?started]"
      using flush started_count by (simp_all add: in_progress_def)
    have "chain 0 (map bounds ((new @ [sec]) @ [?started])) (int (Suc k))"
      using ch ip started_bounds by (simp add: chain_snoc del: append_assoc)
    moreover have "\<forall>s \<in> set ((new @ [sec]) @ [?started]).
        section_of_view D MaxCount view ring_idx multi_idx s"
      using good ip started by auto
    ultimately show ?thesis
      using res new k ip started_count
      by (simp add: part_inv_def)
  next
    case empty
    have sec: "sec = section_ctor D" using fresh empty by simp
    have res: "sections' = sections" "sec' = ?started" "index' = int k"
      using body st cl' empty idx sec
      by (auto simp add: sectionalize_part_body_def flush_section_def)
    have ip: "in_progress sec = []" "in_progress ?started = [?started]"
      using empty started_count by (simp_all add: in_progress_def)
    have "chain 0 (map bounds (new @ [?started])) (int (Suc k))"
      using ch ip started_bounds by (simp add: chain_snoc)
    moreover have "\<forall>s \<in> set (new @ [?started]).
        section_of_view D MaxCount view ring_idx multi_idx s"
      using good ip started by auto
    ultimately show ?thesis
      using res new k ip started_count
      by (simp add: part_inv_def)
  next
    case extend
    let ?ext = "append_segment (int k) (view ! Suc k) sec"
    have res: "sections' = sections" "sec' = ?ext" "index' = int k"
      using body st cl' extend idx
      by (auto simp add: sectionalize_part_body_def flush_section_def start_section_def)
    have ip: "in_progress sec = [sec]" "in_progress ?ext = [?ext]"
      using extend by (simp_all add: in_progress_def append_segment_def)
    have ch': "chain 0 (map bounds new) (begin_index sec)"
      and ltk: "begin_index sec < end_index sec" and e: "end_index sec = int k"
      using ch ip by (simp_all add: chain_snoc bounds_def)
    have gs: "section_of_view D MaxCount view ring_idx multi_idx sec"
      using good ip by simp
    have ext: "section_of_view D MaxCount view ring_idx multi_idx ?ext"
      by (rule extended_section_of_view [OF gs e cl extend(2) extend(3) k])
    have "bounds ?ext = (begin_index sec, int k + 1)"
      by (simp add: bounds_def append_segment_def)
    then have "chain 0 (map bounds (new @ [?ext])) (int (Suc k))"
      using ch' ltk e by (simp add: chain_snoc)
    moreover have "\<forall>s \<in> set (new @ [?ext]).
        section_of_view D MaxCount view ring_idx multi_idx s"
      using good ip ext by auto
    ultimately show ?thesis
      using res new k ip
      by (simp add: part_inv_def append_segment_def)
  qed
qed

lemma part_loop_inv:
  assumes "part_inv D MaxCount view ring_idx multi_idx sections0 (length pre) st"
    and "view = pre @ previous # rest"
  shows "part_inv D MaxCount view ring_idx multi_idx sections0 (length view - 1)
           (sectionalize_part_loop equals PD D MaxCount (length view) ring_idx multi_idx
              previous rest st)"
  using assms
proof (induction rest arbitrary: pre previous st)
  case Nil
  then show ?case by simp
next
  case (Cons it rest)
  let ?k = "length pre"
  have v: "view ! ?k = previous" "view ! Suc ?k = it" "Suc ?k < length view"
    using Cons.prems(2) by (simp_all add: nth_append)
  obtain sections' sec' index' ndi' where
    body: "sectionalize_part_body equals PD D MaxCount (length view) ring_idx multi_idx
             previous it st = (sections', sec', index', ndi')"
    by (cases "sectionalize_part_body equals PD D MaxCount (length view) ring_idx multi_idx
             previous it st") auto
  have "part_inv D MaxCount view ring_idx multi_idx sections0 (Suc ?k)
          (sections', sec', index' + 1, ndi')"
    using part_body_inv [OF Cons.prems(1) v(3)] body v by simp
  then have "part_inv D MaxCount view ring_idx multi_idx sections0 (length (pre @ [previous]))
          (sections', sec', index' + 1, ndi')"
    by simp
  moreover have "view = (pre @ [previous]) @ it # rest"
    using Cons.prems(2) by simp
  ultimately have "part_inv D MaxCount view ring_idx multi_idx sections0 (length view - 1)
      (sectionalize_part_loop equals PD D MaxCount (length view) ring_idx multi_idx
         it rest (sections', sec', index' + 1, ndi'))"
    by (rule Cons.IH)
  then show ?case
    using body by simp
qed

text \<open>What one call of the range sectionizer appends.\<close>

lemma sectionalize_range_result:
  "\<exists>new. sectionalize_range equals PD D MaxCount Closure rng sections ring_idx multi_idx
           = sections @ new
     \<and> (\<forall>s \<in> set new.
           section_of_view D MaxCount (closeable_view Closure rng) ring_idx multi_idx s)
     \<and> chain 0 (map bounds new) (int (length (closeable_view Closure rng) - 1))"
proof -
  let ?view = "closeable_view Closure rng"
  show ?thesis
  proof (cases "length ?view \<le> 1")
    case True
    then have "sectionalize_range equals PD D MaxCount Closure rng sections ring_idx multi_idx
        = sections"
      by (auto simp add: sectionalize_range_def Let_def le_Suc_eq)
    moreover have "length ?view - 1 = 0" using True by simp
    ultimately show ?thesis by simp
  next
    case False
    then obtain p rest where v: "?view = p # rest"
      by (cases ?view) auto
    let ?st0 = "(sections, section_ctor D, 0::int, 0::int)"
    have inv0: "part_inv D MaxCount ?view ring_idx multi_idx sections (length ([]::point list)) ?st0"
      using v by (simp add: part_inv_def in_progress_def section_ctor_def)
    have "part_inv D MaxCount ?view ring_idx multi_idx sections (length ?view - 1)
            (sectionalize_part_loop equals PD D MaxCount (length ?view) ring_idx multi_idx
               p rest ?st0)"
      by (rule part_loop_inv [OF inv0]) (simp add: v)
    moreover have "sectionalize_part equals PD D MaxCount ?st0 ?view ring_idx multi_idx
        = sectionalize_part_loop equals PD D MaxCount (length ?view) ring_idx multi_idx
               p rest ?st0"
      using v by (simp add: sectionalize_part_def)
    ultimately have inv: "part_inv D MaxCount ?view ring_idx multi_idx sections (length ?view - 1)
        (sectionalize_part equals PD D MaxCount ?st0 ?view ring_idx multi_idx)"
      by simp
    obtain sections' sec index ndi where
      r: "sectionalize_part equals PD D MaxCount ?st0 ?view ring_idx multi_idx
            = (sections', sec, index, ndi)"
      by (cases "sectionalize_part equals PD D MaxCount ?st0 ?view ring_idx multi_idx") auto
    from inv r obtain new where
      new: "sections' = sections @ new"
      and good: "\<forall>s \<in> set (new @ in_progress sec).
                 section_of_view D MaxCount ?view ring_idx multi_idx s"
      and ch: "chain 0 (map bounds (new @ in_progress sec)) (int (length ?view - 1))"
      by (auto simp add: part_inv_def)
    have "sectionalize_range equals PD D MaxCount Closure rng sections ring_idx multi_idx
        = sections @ (new @ in_progress sec)"
      using False r new
      by (auto simp add: sectionalize_range_def Let_def in_progress_def)
    then show ?thesis
      using good ch by blast
  qed
qed

subsection \<open>The partition of the segment indices\<close>

lemma chain_le: "chain lo xs hi \<Longrightarrow> lo \<le> hi"
  by (induction xs arbitrary: lo) fastforce+

lemma chain_union: "chain lo xs hi \<Longrightarrow> (\<Union>p \<in> set xs. {fst p ..< snd p}) = {lo ..< hi}"
proof (induction xs arbitrary: lo)
  case Nil
  then show ?case by simp
next
  case (Cons p xs)
  obtain b e where p: "p = (b, e)" by (cases p)
  have c: "b = lo" "b < e" "chain e xs hi" using Cons.prems p by simp_all
  have "e \<le> hi" using c(3) by (rule chain_le)
  then have "{b ..< e} \<union> {e ..< hi} = {lo ..< hi}"
    using c(1,2) by auto
  then show ?case
    using Cons.IH [OF c(3)] p by simp
qed

lemma chain_mem: "chain lo xs hi \<Longrightarrow> (b, e) \<in> set xs \<Longrightarrow> lo \<le> b \<and> b < e \<and> e \<le> hi"
proof (induction xs arbitrary: lo)
  case Nil
  then show ?case by simp
next
  case (Cons p xs)
  obtain b' e' where p: "p = (b', e')" by (cases p)
  have c: "b' = lo" "b' < e'" "chain e' xs hi" using Cons.prems(1) p by simp_all
  have le: "e' \<le> hi" using c(3) by (rule chain_le)
  show ?case
  proof (cases "(b, e) = p")
    case True
    then show ?thesis using p c le by simp
  next
    case False
    then have "(b, e) \<in> set xs" using Cons.prems(2) by simp
    then have "e' \<le> b \<and> b < e \<and> e \<le> hi" by (rule Cons.IH [OF c(3)])
    then show ?thesis using c by simp
  qed
qed

lemma chain_nth_ordered:
  "chain lo xs hi \<Longrightarrow> i < j \<Longrightarrow> j < length xs \<Longrightarrow> snd (xs ! i) \<le> fst (xs ! j)"
proof (induction xs arbitrary: lo i j)
  case Nil
  then show ?case by simp
next
  case (Cons p xs)
  obtain b e where p: "p = (b, e)" by (cases p)
  have c: "b = lo" "b < e" "chain e xs hi" using Cons.prems(1) p by simp_all
  obtain j' where j: "j = Suc j'" using Cons.prems(2) by (cases j) auto
  have j': "j' < length xs" using Cons.prems(3) j by simp
  show ?case
  proof (cases i)
    case 0
    have "xs ! j' \<in> set xs" using j' by simp
    then have "(fst (xs ! j'), snd (xs ! j')) \<in> set xs" by simp
    then have "e \<le> fst (xs ! j')" using chain_mem [OF c(3)] by blast
    then show ?thesis using 0 j p by simp
  next
    case (Suc i')
    then have "i' < j'" using Cons.prems(2) j by simp
    then have "snd (xs ! i') \<le> fst (xs ! j')" using Cons.IH [OF c(3)] j' by blast
    then show ?thesis using Suc j by simp
  qed
qed

lemma chain_nth_adjacent:
  "chain lo xs hi \<Longrightarrow> Suc j < length xs \<Longrightarrow> snd (xs ! j) = fst (xs ! Suc j)"
proof (induction xs arbitrary: lo j)
  case Nil
  then show ?case by simp
next
  case (Cons p xs)
  obtain b e where p: "p = (b, e)" by (cases p)
  have c: "b = lo" "b < e" "chain e xs hi" using Cons.prems(1) p by simp_all
  show ?case
  proof (cases j)
    case 0
    then obtain q ys where xs: "xs = q # ys" using Cons.prems(2) by (cases xs) auto
    then show ?thesis using c(3) 0 p by (cases q) simp
  next
    case (Suc j')
    then show ?thesis using Cons.IH [OF c(3), of j'] Cons.prems(2) by simp
  qed
qed

lemma closeable_view_segments:
  "int (length (closeable_view Closure rng)) - 1 \<le> segment_count Closure rng"
  "rng \<noteq> [] \<Longrightarrow> int (length (closeable_view Closure rng)) - 1 = segment_count Closure rng"
  by (auto simp add: closeable_view_def segment_count_def split: closure_selector.splits)

lemma interval_of_view:
  "{0 ..< int (length (closeable_view Closure rng) - 1)} = {0 ..< segment_count Closure rng}"
  by (cases "rng = []")
     (auto simp add: closeable_view_def segment_count_def split: closure_selector.splits)

text \<open>
  Claim C1. The sections that the range sectionizer appends for a range of \<open>N\<close> points
  have non-empty index ranges \<open>[begin_index, end_index)\<close> that are contiguous, in
  increasing order, pairwise disjoint, and whose union is \<open>[0, M)\<close>, where \<open>M\<close> is
  \<open>N - 1\<close>, or \<open>N\<close> when the closing point is appended.
\<close>

theorem sections_partition_segments:
  "\<exists>new. sectionalize_range equals PD D MaxCount Closure rng sections ring_idx multi_idx
            = sections @ new
     \<and> (\<forall>s \<in> set new. begin_index s < end_index s)
     \<and> (\<forall>j. Suc j < length new \<longrightarrow> end_index (new ! j) = begin_index (new ! Suc j))
     \<and> (\<forall>i j. i < j \<and> j < length new \<longrightarrow> end_index (new ! i) \<le> begin_index (new ! j))
     \<and> (\<forall>i j. i < j \<and> j < length new \<longrightarrow>
           {begin_index (new ! i) ..< end_index (new ! i)}
             \<inter> {begin_index (new ! j) ..< end_index (new ! j)} = {})
     \<and> (\<Union>s \<in> set new. {begin_index s ..< end_index s}) = {0 ..< segment_count Closure rng}"
proof -
  obtain new where
    res: "sectionalize_range equals PD D MaxCount Closure rng sections ring_idx multi_idx
            = sections @ new"
    and ch: "chain 0 (map bounds new) (int (length (closeable_view Closure rng) - 1))"
    using sectionalize_range_result [of equals PD D MaxCount Closure rng sections ring_idx multi_idx]
    by blast
  have nonempty: "\<forall>s \<in> set new. begin_index s < end_index s"
  proof
    fix s assume "s \<in> set new"
    then have "(begin_index s, end_index s) \<in> set (map bounds new)"
      by (auto simp add: bounds_def)
    then show "begin_index s < end_index s" using chain_mem [OF ch] by blast
  qed
  have adjacent: "\<forall>j. Suc j < length new \<longrightarrow> end_index (new ! j) = begin_index (new ! Suc j)"
    using chain_nth_adjacent [OF ch] by (simp add: bounds_def)
  have ordered: "\<forall>i j. i < j \<and> j < length new \<longrightarrow> end_index (new ! i) \<le> begin_index (new ! j)"
    using chain_nth_ordered [OF ch] by (simp add: bounds_def)
  have disjoint: "\<forall>i j. i < j \<and> j < length new \<longrightarrow>
           {begin_index (new ! i) ..< end_index (new ! i)}
             \<inter> {begin_index (new ! j) ..< end_index (new ! j)} = {}"
    using ordered by fastforce
  have "(\<Union>s \<in> set new. {begin_index s ..< end_index s})
      = (\<Union>p \<in> set (map bounds new). {fst p ..< snd p})"
    by (simp add: bounds_def)
  also have "\<dots> = {0 ..< int (length (closeable_view Closure rng) - 1)}"
    by (rule chain_union [OF ch])
  also have "\<dots> = {0 ..< segment_count Closure rng}"
    by (rule interval_of_view)
  finally have cover: "(\<Union>s \<in> set new. {begin_index s ..< end_index s})
      = {0 ..< segment_count Closure rng}" .
  show ?thesis
    using res nonempty adjacent ordered disjoint cover by blast
qed

theorem sections_partition_segments_witness:
  "map bounds (sectionalize_range (=) 2 2 10 Open square_ring [] (-1) (-1))
     = [(0, 1), (1, 2), (2, 3), (3, 4)]
   \<and> end_index (sectionalize_range (=) 2 2 10 Open square_ring [] (-1) (-1) ! 0)
     = begin_index (sectionalize_range (=) 2 2 10 Open square_ring [] (-1) (-1) ! 1)
   \<and> (\<Union>s \<in> set (sectionalize_range (=) 2 2 10 Open square_ring [] (-1) (-1)).
         {begin_index s ..< end_index s}) = {0 ..< 4}"
proof -
  let ?ss = "sectionalize_range (=) 2 2 10 Open square_ring [] (-1) (-1)"
  have b: "map bounds ?ss = [(0, 1), (1, 2), (2, 3), (3, 4)]"
    by code_simp
  have len: "length ?ss = 4"
    by code_simp
  have m: "segment_count Open square_ring = 4"
    by (simp add: segment_count_def square_ring_def)
  obtain new where new: "?ss = [] @ new"
    and adjacent: "\<forall>j. Suc j < length new \<longrightarrow> end_index (new ! j) = begin_index (new ! Suc j)"
    and cover: "(\<Union>s \<in> set new. {begin_index s ..< end_index s})
                  = {0 ..< segment_count Open square_ring}"
    using sections_partition_segments [of "(=)" 2 2 10 Open square_ring "[]" "-1" "-1"]
    by (elim exE conjE) (rule that; assumption)
  have eq: "new = ?ss" using new by simp
  have "end_index (?ss ! 0) = begin_index (?ss ! 1)"
    using adjacent len unfolding eq by simp
  moreover have "(\<Union>s \<in> set ?ss. {begin_index s ..< end_index s}) = {0 ..< 4}"
    using cover m unfolding eq by simp
  ultimately show ?thesis using b by blast
qed

subsection \<open>From one range to a geometry\<close>

lemma segment_directions_subset: "set (segment_directions D seg) \<subseteq> {-1, 0, 1}"
  by (auto simp add: segment_directions_def sgn_if)

lemma section_of_view_shape:
  assumes "section_of_view D MaxCount view ring_idx multi_idx s"
  shows "section_shape D MaxCount s"
proof -
  have "set (directions s) \<subseteq> {-1, 0, 1}" if "\<not> duplicate s"
  proof -
    have "nat (begin_index s) < nat (end_index s)"
      using assms by (simp add: section_of_view_def)
    then have "directions s = segment_directions D (seg_of view (nat (begin_index s)))"
      using assms that by (simp add: section_of_view_def)
    then show ?thesis
      by (simp add: segment_directions_subset)
  qed
  then show ?thesis
    using assms by (simp add: section_of_view_def section_shape_def)
qed

lemma sectionalize_range_shape:
  assumes "\<forall>s \<in> set sections. section_shape D MaxCount s"
  shows "\<forall>s \<in> set (sectionalize_range equals PD D MaxCount Closure rng sections
                       ring_idx multi_idx). section_shape D MaxCount s"
proof -
  obtain new where
    "sectionalize_range equals PD D MaxCount Closure rng sections ring_idx multi_idx
       = sections @ new"
    "\<forall>s \<in> set new.
       section_of_view D MaxCount (closeable_view Closure rng) ring_idx multi_idx s"
    using sectionalize_range_result
      [of equals PD D MaxCount Closure rng sections ring_idx multi_idx] by blast
  then show ?thesis
    using assms section_of_view_shape by auto
qed

lemma sectionalize_interior_rings_shape:
  assumes "\<forall>s \<in> set sections. section_shape D MaxCount s"
  shows "\<forall>s \<in> set (sectionalize_interior_rings equals PD D MaxCount Closure multi_idx i
                       rings sections). section_shape D MaxCount s"
  using assms
proof (induction rings arbitrary: i sections)
  case Nil
  then show ?case by simp
next
  case (Cons it rings)
  show ?case
    using Cons.IH [OF sectionalize_range_shape [OF Cons.prems] ] by simp
qed

lemma dispatch_sectionalize_shape:
  "\<forall>s \<in> set (dispatch_sectionalize equals PD D MaxCount g []). section_shape D MaxCount s"
proof (cases g)
  case (Box_geometry b)
  then show ?thesis
    using sectionalize_range_shape [of "[]" D MaxCount equals 2 Closed "box_points b" "-1" "-1"]
    by (simp add: sectionalize_box_def)
next
  case (Linestring ls)
  then show ?thesis
    using sectionalize_range_shape [of "[]" D MaxCount equals PD Closed ls "-1" "-1"]
    by simp
next
  case (Ring Closure r)
  then show ?thesis
    using sectionalize_range_shape [of "[]" D MaxCount equals PD Closure r "-1" "-1"]
    by simp
next
  case (Polygon Closure ext ints)
  have "\<forall>s \<in> set (sectionalize_range equals PD D MaxCount Closure ext [] (-1) (-1)).
          section_shape D MaxCount s"
    using sectionalize_range_shape [of "[]" D MaxCount equals PD Closure ext "-1" "-1"]
    by simp
  then show ?thesis
    using Polygon sectionalize_interior_rings_shape
    by (simp add: sectionalize_polygon_def)
qed

lemma set_section_unique_ids_loop_mem:
  "s \<in> set (set_section_unique_ids_loop index sections) \<Longrightarrow>
   \<exists>s0 \<in> set sections. \<exists>i. s = s0\<lparr>section_id := i\<rparr>"
  by (induction sections arbitrary: index) auto

lemma set_section_unique_ids_loop_length [simp]:
  "length (set_section_unique_ids_loop index sections) = length sections"
  by (induction sections arbitrary: index) auto

lemma set_section_unique_ids_loop_ids:
  "map section_id (set_section_unique_ids_loop index sections)
     = map (\<lambda>i. index + int i) [0 ..< length sections]"
proof (induction sections arbitrary: index)
  case Nil
  then show ?case by simp
next
  case (Cons s sections)
  have "map (\<lambda>i. index + int i) [0 ..< Suc (length sections)]
      = index # map (\<lambda>i. index + 1 + int i) [0 ..< length sections]"
    by (simp add: upt_conv_Cons map_Suc_upt [symmetric] del: upt_Suc)
  then show ?case
    using Cons.IH [of "index + 1"] by simp
qed

lemma section_shape_id [simp]:
  "section_shape D MaxCount (s\<lparr>section_id := i\<rparr>) = section_shape D MaxCount s"
  by (simp add: section_shape_def)

lemma sectionalize_shape:
  "\<forall>s \<in> set (sectionalize equals PD D g old). section_shape D max_segments_per_section s"
proof
  fix s assume "s \<in> set (sectionalize equals PD D g old)"
  then obtain s0 i where
    "s0 \<in> set (dispatch_sectionalize equals PD D max_segments_per_section g [])"
    "s = s0\<lparr>section_id := i\<rparr>"
    using set_section_unique_ids_loop_mem
    by (fastforce simp add: sectionalize_def set_section_unique_ids_def)
  then show "section_shape D max_segments_per_section s"
    using dispatch_sectionalize_shape by simp
qed

subsection \<open>The claims about every section\<close>

lemma flush_pushes:
  assumes "length (directions sec) = D"
  shows "fst (sectionalize_part_body equals PD D MaxCount n ring_idx multi_idx previous it
                (sections, sec, index, ndi))
         = (if 0 < count sec
               \<and> (snd (classify_segment equals PD D (previous, it)) \<noteq> directions sec
                   \<or> MaxCount < count sec)
            then sections @ [sec] else sections)"
proof -
  obtain dup dc where cl: "classify_segment equals PD D (previous, it) = (dup, dc)"
    by (cases "classify_segment equals PD D (previous, it)") auto
  have "compare_loop dc (directions sec) 0 D \<longleftrightarrow> dc = directions sec"
    using classify_segment_length [OF cl] assms by (simp add: compare_loop_eq)
  then show ?thesis
    using cl by (simp add: sectionalize_part_body_def flush_section_def)
qed



text \<open>
  Claim C3. No section that \<^verbatim>\<open>sectionalize\<close> produces has more than
  \<open>max_segments_per_section + 1\<close> segments, and no section that the range sectionizer
  appends has more than \<open>MaxCount + 1\<close>. The body of the loop pushes the section in
  progress exactly when it is non-empty and either the direction classes of the segment
  differ from the stored ones or its count already exceeds \<open>MaxCount\<close>; a line of 13
  segments in one direction gives a run of exactly \<open>max_segments_per_section + 1\<close>.
\<close>

theorem run_length_bound:
  "(\<forall>s \<in> set (sectionalize equals PD D g old). count s \<le> max_segments_per_section + 1)
   \<and> (\<exists>new. sectionalize_range equals PD D MaxCount Closure rng sections ring_idx multi_idx
               = sections @ new
         \<and> (\<forall>s \<in> set new. count s \<le> MaxCount + 1))
   \<and> (length (directions sec) = D \<longrightarrow>
        fst (sectionalize_part_body equals PD D MaxCount n ring_idx multi_idx previous it
               (sections, sec, index, ndi))
        = (if 0 < count sec
              \<and> (snd (classify_segment equals PD D (previous, it)) \<noteq> directions sec
                  \<or> MaxCount < count sec)
           then sections @ [sec] else sections))
   \<and> map count (sectionalize (=) 2 2 (Linestring long_line) [])
       = [max_segments_per_section + 1, 2]"
proof -
  have top: "\<forall>s \<in> set (sectionalize equals PD D g old). count s \<le> max_segments_per_section + 1"
    using sectionalize_shape [of equals PD D g old] by (simp add: section_shape_def)
  obtain new where
    res: "sectionalize_range equals PD D MaxCount Closure rng sections ring_idx multi_idx
            = sections @ new"
    and good: "\<forall>s \<in> set new.
       section_of_view D MaxCount (closeable_view Closure rng) ring_idx multi_idx s"
    using sectionalize_range_result
      [of equals PD D MaxCount Closure rng sections ring_idx multi_idx] by blast
  have part: "\<exists>new. sectionalize_range equals PD D MaxCount Closure rng sections ring_idx
                multi_idx = sections @ new
         \<and> (\<forall>s \<in> set new. count s \<le> MaxCount + 1)"
    using res good by (auto simp add: section_of_view_def)
  have reach: "map count (sectionalize (=) 2 2 (Linestring long_line) [])
       = [max_segments_per_section + 1, 2]"
    by code_simp
  show ?thesis
    using top part reach flush_pushes by blast
qed

theorem run_length_bound_witness:
  "map count (sectionalize (=) 2 2 (Linestring long_line) []) = [11, 2]
   \<and> count (sectionalize (=) 2 2 (Linestring long_line) [] ! 0)
       \<le> max_segments_per_section + 1"
proof -
  let ?ss = "sectionalize (=) 2 2 (Linestring long_line) []"
  have c: "map count ?ss = [11, 2]"
    by code_simp
  have "length ?ss = 2"
    by code_simp
  then have "?ss ! 0 \<in> set ?ss" by simp
  then have "count (?ss ! 0) \<le> max_segments_per_section + 1"
    using run_length_bound [of "(=)" 2 2 "Linestring long_line" "[]"] by blast
  then show ?thesis using c by blast
qed

lemma set_section_unique_ids_loop_map2:
  "set_section_unique_ids_loop index sections
     = map2 (\<lambda>i s. s\<lparr>section_id := index + int i\<rparr>) [0 ..< length sections] sections"
proof (induction sections arbitrary: index)
  case Nil
  then show ?case by simp
next
  case (Cons s sections)
  have "map2 (\<lambda>i s. s\<lparr>section_id := index + int i\<rparr>) [0 ..< Suc (length sections)] (s # sections)
      = s\<lparr>section_id := index\<rparr>
          # map2 (\<lambda>i s. s\<lparr>section_id := index + 1 + int i\<rparr>) [0 ..< length sections] sections"
    by (auto simp add: upt_conv_Cons map_Suc_upt [symmetric] zip_map1 simp del: upt_Suc)
  then show ?case
    using Cons.IH [of "index + 1"] by simp
qed

text \<open>
  Claim C7. \<^verbatim>\<open>sectionalize\<close> returns the sections that the dispatcher builds in a
  cleared collection, of the same number and in the same order, each one unchanged but
  for its id, which is its position 0, 1, ... in the output; so the ids are exactly
  \<open>0 .. count - 1\<close>, and nothing that the collection held before the call survives.
\<close>

theorem section_ids_in_output_order:
  "sectionalize equals PD D g old
     = map2 (\<lambda>i s. s\<lparr>section_id := int i\<rparr>)
         [0 ..< length (dispatch_sectionalize equals PD D max_segments_per_section g [])]
         (dispatch_sectionalize equals PD D max_segments_per_section g [])
   \<and> length (sectionalize equals PD D g old)
       = length (dispatch_sectionalize equals PD D max_segments_per_section g [])
   \<and> (\<forall>i < length (sectionalize equals PD D g old).
         sectionalize equals PD D g old ! i
           = (dispatch_sectionalize equals PD D max_segments_per_section g [] ! i)
               \<lparr>section_id := int i\<rparr>)
   \<and> map section_id (sectionalize equals PD D g old)
       = map int [0 ..< length (sectionalize equals PD D g old)]
   \<and> sectionalize equals PD D g old = sectionalize equals PD D g []"
proof -
  let ?built = "dispatch_sectionalize equals PD D max_segments_per_section g []"
  have eq: "sectionalize equals PD D g old
     = map2 (\<lambda>i s. s\<lparr>section_id := int i\<rparr>) [0 ..< length ?built] ?built"
    using set_section_unique_ids_loop_map2 [of 0 ?built]
    by (simp add: sectionalize_def set_section_unique_ids_def)
  have len: "length (sectionalize equals PD D g old) = length ?built"
    by (simp add: eq)
  have nth: "\<forall>i < length (sectionalize equals PD D g old).
         sectionalize equals PD D g old ! i = (?built ! i)\<lparr>section_id := int i\<rparr>"
    by (simp add: eq)
  have "map section_id (sectionalize equals PD D g old)
      = map (\<lambda>i. 0 + int i) [0 ..< length (sectionalize equals PD D g old)]"
    unfolding sectionalize_def set_section_unique_ids_def Let_def
    using set_section_unique_ids_loop_ids [of 0] by simp
  then have ids: "map section_id (sectionalize equals PD D g old)
       = map int [0 ..< length (sectionalize equals PD D g old)]"
    by simp
  have same: "sectionalize equals PD D g old = sectionalize equals PD D g []"
    by (simp add: sectionalize_def)
  show ?thesis
    by (intro conjI) (fact eq len nth ids same)+
qed

theorem section_ids_in_output_order_witness:
  "map section_id (dispatch_sectionalize (=) 2 2 max_segments_per_section (Ring Open square_ring) [])
     = [-1, -1, -1, -1]
   \<and> map section_id (sectionalize (=) 2 2 (Linestring long_line) []) = [0, 1]
   \<and> map (\<lambda>s. (section_id s, begin_index s, end_index s, directions s))
        (sectionalize (=) 2 2 (Ring Open square_ring)
           (sectionalize (=) 2 2 (Linestring long_line) []))
     = [(0, 0, 1, [0, 1]), (1, 1, 2, [1, 0]), (2, 2, 3, [0, -1]), (3, 3, 4, [-1, 0])]
   \<and> sectionalize (=) 2 2 (Ring Open square_ring)
         (sectionalize (=) 2 2 (Linestring long_line) []) ! 2
     = (dispatch_sectionalize (=) 2 2 max_segments_per_section (Ring Open square_ring) [] ! 2)
         \<lparr>section_id := 2\<rparr>"
proof -
  let ?old = "sectionalize (=) 2 2 (Linestring long_line) []"
  let ?ss = "sectionalize (=) 2 2 (Ring Open square_ring) ?old"
  note t = section_ids_in_output_order [of "(=)" 2 2 "Ring Open square_ring" ?old]
  have a: "map section_id
      (dispatch_sectionalize (=) 2 2 max_segments_per_section (Ring Open square_ring) [])
     = [-1, -1, -1, -1]"
    by code_simp
  have b: "map section_id ?old = [0, 1]"
    by code_simp
  have fresh: "?ss = sectionalize (=) 2 2 (Ring Open square_ring) []"
    using t by (elim conjE)
  have "map (\<lambda>s. (section_id s, begin_index s, end_index s, directions s))
        (sectionalize (=) 2 2 (Ring Open square_ring) [])
     = [(0, 0, 1, [0, 1]), (1, 1, 2, [1, 0]), (2, 2, 3, [0, -1]), (3, 3, 4, [-1, 0])]"
    by code_simp
  then have c: "map (\<lambda>s. (section_id s, begin_index s, end_index s, directions s)) ?ss
     = [(0, 0, 1, [0, 1]), (1, 1, 2, [1, 0]), (2, 2, 3, [0, -1]), (3, 3, 4, [-1, 0])]"
    by (simp only: fresh)
  have "length (sectionalize (=) 2 2 (Ring Open square_ring) []) = 4"
    by code_simp
  then have len: "(2 :: nat) < length ?ss" by (simp only: fresh)
  have "\<forall>i < length ?ss. ?ss ! i
      = (dispatch_sectionalize (=) 2 2 max_segments_per_section (Ring Open square_ring) [] ! i)
          \<lparr>section_id := int i\<rparr>"
    using t by (elim conjE)
  then have d: "?ss ! 2
      = (dispatch_sectionalize (=) 2 2 max_segments_per_section (Ring Open square_ring) [] ! 2)
          \<lparr>section_id := 2\<rparr>"
    using len by fastforce
  show ?thesis
    by (intro conjI) (fact a b c d)+
qed

text \<open>
  Claim C10. Every section that the range sectionizer appends, and every section that
  \<^verbatim>\<open>sectionalize\<close> produces, has a count of at least 1, a begin index of at least 0, and
  \<open>end_index - begin_index\<close> equal to its count.
\<close>

theorem pushed_sections_nonempty:
  "(\<exists>new. sectionalize_range equals PD D MaxCount Closure rng sections ring_idx multi_idx
             = sections @ new
       \<and> (\<forall>s \<in> set new. 1 \<le> count s \<and> 0 \<le> begin_index s
             \<and> end_index s - begin_index s = int (count s)))
   \<and> (\<forall>s \<in> set (sectionalize equals PD D g old). 1 \<le> count s \<and> 0 \<le> begin_index s
         \<and> end_index s - begin_index s = int (count s))"
proof -
  obtain new where
    res: "sectionalize_range equals PD D MaxCount Closure rng sections ring_idx multi_idx
            = sections @ new"
    and good: "\<forall>s \<in> set new.
       section_of_view D MaxCount (closeable_view Closure rng) ring_idx multi_idx s"
    using sectionalize_range_result
      [of equals PD D MaxCount Closure rng sections ring_idx multi_idx] by blast
  have "\<forall>s \<in> set new. 1 \<le> count s \<and> 0 \<le> begin_index s
             \<and> end_index s - begin_index s = int (count s)"
    using good by (auto simp add: section_of_view_def)
  moreover have "\<forall>s \<in> set (sectionalize equals PD D g old). 1 \<le> count s \<and> 0 \<le> begin_index s
         \<and> end_index s - begin_index s = int (count s)"
    using sectionalize_shape [of equals PD D g old] by (auto simp add: section_shape_def)
  ultimately show ?thesis
    using res by blast
qed

theorem pushed_sections_nonempty_witness:
  "map (\<lambda>s. (count s, begin_index s, end_index s))
       (sectionalize (=) 2 2 (Linestring long_line) [])
     = [(11, 0, 11), (2, 11, 13)]
   \<and> 1 \<le> count (sectionalize (=) 2 2 (Linestring long_line) [] ! 1)
   \<and> 0 \<le> begin_index (sectionalize (=) 2 2 (Linestring long_line) [] ! 1)
   \<and> end_index (sectionalize (=) 2 2 (Linestring long_line) [] ! 1)
       - begin_index (sectionalize (=) 2 2 (Linestring long_line) [] ! 1)
     = int (count (sectionalize (=) 2 2 (Linestring long_line) [] ! 1))"
proof -
  let ?ss = "sectionalize (=) 2 2 (Linestring long_line) []"
  have c: "map (\<lambda>s. (count s, begin_index s, end_index s)) ?ss = [(11, 0, 11), (2, 11, 13)]"
    by code_simp
  have "length ?ss = 2"
    by code_simp
  then have "?ss ! 1 \<in> set ?ss" by simp
  then have "1 \<le> count (?ss ! 1) \<and> 0 \<le> begin_index (?ss ! 1)
      \<and> end_index (?ss ! 1) - begin_index (?ss ! 1) = int (count (?ss ! 1))"
    using pushed_sections_nonempty [of "(=)" 2 2 10 Closed long_line "[]" "-1" "-1"
        "Linestring long_line" "[]"]
    by blast
  then show ?thesis using c by blast
qed

text \<open>
  Claim C8, which fails as stated: the section of a zero-length segment stores the
  sentinel -99, which is not in \<open>{-1, 0, 1}\<close>.
\<close>

theorem directions_sentinel_counterexample:
  "map directions (sectionalize (=) 2 2 (Linestring line_with_repeated_point) [])
     = [ [1, 1], [-99, -99], [1, 1] ]
   \<and> (-99 :: int) \<notin> {-1, 0, 1}"
  by code_simp

text \<open>
  Claim C8, amended. Every entry of the directions of a section with \<open>duplicate = false\<close>
  is in \<open>{-1, 0, 1}\<close>, and every entry of the directions of a section with
  \<open>duplicate = true\<close> is the sentinel -99. This holds of the sections that the range
  sectionizer appends and of the sections that \<^verbatim>\<open>sectionalize\<close> produces.
\<close>

theorem directions_entries:
  "(\<exists>new. sectionalize_range equals PD D MaxCount Closure rng sections ring_idx multi_idx
             = sections @ new
       \<and> (\<forall>s \<in> set new. length (directions s) = D
             \<and> (\<not> duplicate s \<longrightarrow> set (directions s) \<subseteq> {-1, 0, 1})
             \<and> (duplicate s \<longrightarrow> directions s = replicate D (-99))))
   \<and> (\<forall>s \<in> set (sectionalize equals PD D g old). length (directions s) = D
         \<and> (\<not> duplicate s \<longrightarrow> set (directions s) \<subseteq> {-1, 0, 1})
         \<and> (duplicate s \<longrightarrow> directions s = replicate D (-99)))"
proof -
  obtain new where
    res: "sectionalize_range equals PD D MaxCount Closure rng sections ring_idx multi_idx
            = sections @ new"
    and good: "\<forall>s \<in> set new.
       section_of_view D MaxCount (closeable_view Closure rng) ring_idx multi_idx s"
    using sectionalize_range_result
      [of equals PD D MaxCount Closure rng sections ring_idx multi_idx] by blast
  have "\<forall>s \<in> set new. section_shape D MaxCount s"
    using good section_of_view_shape by blast
  then have "\<forall>s \<in> set new. length (directions s) = D
             \<and> (\<not> duplicate s \<longrightarrow> set (directions s) \<subseteq> {-1, 0, 1})
             \<and> (duplicate s \<longrightarrow> directions s = replicate D (-99))"
    by (simp add: section_shape_def)
  moreover have "\<forall>s \<in> set (sectionalize equals PD D g old). length (directions s) = D
         \<and> (\<not> duplicate s \<longrightarrow> set (directions s) \<subseteq> {-1, 0, 1})
         \<and> (duplicate s \<longrightarrow> directions s = replicate D (-99))"
    using sectionalize_shape [of equals PD D g old] by (simp add: section_shape_def)
  ultimately show ?thesis
    using res by blast
qed

theorem directions_entries_witness:
  "map (\<lambda>s. (duplicate s, directions s))
       (sectionalize (=) 2 2 (Linestring line_with_repeated_point) [])
     = [(False, [1, 1]), (True, [-99, -99]), (False, [1, 1])]
   \<and> set (directions (sectionalize (=) 2 2 (Linestring line_with_repeated_point) [] ! 0))
       \<subseteq> {-1, 0, 1}
   \<and> directions (sectionalize (=) 2 2 (Linestring line_with_repeated_point) [] ! 1)
       = replicate 2 (-99)"
proof -
  let ?ss = "sectionalize (=) 2 2 (Linestring line_with_repeated_point) []"
  have c: "map (\<lambda>s. (duplicate s, directions s)) ?ss
     = [(False, [1, 1]), (True, [-99, -99]), (False, [1, 1])]"
    by code_simp
  have d: "\<not> duplicate (?ss ! 0)" "duplicate (?ss ! 1)"
    by code_simp+
  have "length ?ss = 3"
    by code_simp
  then have "?ss ! 0 \<in> set ?ss" "?ss ! 1 \<in> set ?ss" by simp_all
  then have "set (directions (?ss ! 0)) \<subseteq> {-1, 0, 1}"
    "directions (?ss ! 1) = replicate 2 (-99)"
    using d directions_entries [of "(=)" 2 2 10 Closed line_with_repeated_point "[]" "-1" "-1"
        "Linestring line_with_repeated_point" "[]"]
    by blast+
  then show ?thesis using c by blast
qed

subsection \<open>Bounding boxes and degenerate ranges\<close>

lemma combine_dimension:
  "box_dimension n b \<Longrightarrow> length p = n \<Longrightarrow> box_dimension n (combine b p)"
  by (cases b) (simp_all add: box_dimension_def)

lemma combine_within_new:
  "box_dimension (length p) b \<Longrightarrow> within_box p (combine b p)"
  by (cases b) (simp_all add: box_dimension_def list_all2_conv_all_nth)

lemma combine_within_old:
  "within_box q b \<Longrightarrow> length p = length q \<Longrightarrow> within_box q (combine b p)"
  by (cases b) (auto simp add: list_all2_conv_all_nth min_le_iff_disj le_max_iff_disj)

lemma foldl_combine_within_old:
  "within_box q b \<Longrightarrow> \<forall>p \<in> set ps. length p = length q \<Longrightarrow>
   within_box q (foldl combine b ps)"
  by (induction ps arbitrary: b) (simp_all add: combine_within_old)

lemma foldl_combine_within:
  "box_dimension n b \<Longrightarrow> \<forall>p \<in> set ps. length p = n \<Longrightarrow> q \<in> set ps \<Longrightarrow>
   within_box q (foldl combine b ps)"
proof (induction ps arbitrary: b)
  case Nil
  then show ?case by simp
next
  case (Cons p ps)
  have dim: "box_dimension n (combine b p)"
    using Cons.prems(1,2) by (simp add: combine_dimension)
  show ?case
  proof (cases "q = p")
    case True
    have "within_box q (combine b p)"
      using Cons.prems(1,2) True combine_within_new [of p b] by simp
    moreover have "\<forall>p' \<in> set ps. length p' = length q"
      using Cons.prems(2) True by simp
    ultimately show ?thesis
      by (simp add: foldl_combine_within_old)
  next
    case False
    then have "q \<in> set ps" using Cons.prems(3) by simp
    then show ?thesis
      using Cons.IH [OF dim] Cons.prems(2) by simp
  qed
qed

lemma closeable_view_subset: "set (closeable_view Closure rng) \<subseteq> set rng"
  by (cases Closure) (auto simp add: closeable_view_def)

lemma run_points_mem:
  assumes "nat (begin_index s) \<le> j" "j \<le> nat (begin_index s) + count s"
    and "nat (begin_index s) + count s < length view"
  shows "view ! j \<in> set (run_points view s)"
proof -
  let ?b = "nat (begin_index s)"
  have "j - ?b < length (run_points view s)"
    using assms by (simp add: run_points_def)
  moreover have "run_points view s ! (j - ?b) = view ! j"
    using assms by (simp add: run_points_def)
  ultimately show ?thesis
    by (metis nth_mem)
qed

text \<open>
  Claim C9. When every point of the range has the same number of coordinates, the
  bounding box of every section that the range sectionizer appends is the union, begun
  at the inverted box, of the points with the indices \<open>begin_index\<close> to \<open>end_index\<close> of the
  view and of no others, and the start point and the end point of every segment of the
  section lie within it.
\<close>

theorem bounding_box_containment:
  assumes "\<forall>p \<in> set rng. length p = PD"
  shows "\<exists>new. sectionalize_range equals PD D MaxCount Closure rng sections ring_idx multi_idx
            = sections @ new
     \<and> (\<forall>s \<in> set new.
           bounding_box s
             = foldl combine assign_inverse
                 (take (Suc (count s)) (drop (nat (begin_index s)) (closeable_view Closure rng)))
           \<and> (\<forall>i. begin_index s \<le> i \<and> i < end_index s \<longrightarrow>
                 within_box (closeable_view Closure rng ! nat i) (bounding_box s)
                 \<and> within_box (closeable_view Closure rng ! Suc (nat i)) (bounding_box s)))"
proof -
  let ?view = "closeable_view Closure rng"
  obtain new where
    res: "sectionalize_range equals PD D MaxCount Closure rng sections ring_idx multi_idx
            = sections @ new"
    and good: "\<forall>s \<in> set new. section_of_view D MaxCount ?view ring_idx multi_idx s"
    using sectionalize_range_result
      [of equals PD D MaxCount Closure rng sections ring_idx multi_idx] by blast
  have dims: "\<forall>p \<in> set ?view. length p = PD"
    using assms closeable_view_subset by blast
  have "bounding_box s = foldl combine assign_inverse
                 (take (Suc (count s)) (drop (nat (begin_index s)) ?view))
        \<and> (\<forall>i. begin_index s \<le> i \<and> i < end_index s \<longrightarrow>
              within_box (?view ! nat i) (bounding_box s)
              \<and> within_box (?view ! Suc (nat i)) (bounding_box s))"
    if s: "s \<in> set new" for s
  proof -
    have sv: "section_of_view D MaxCount ?view ring_idx multi_idx s"
      using good s by blast
    then have b: "0 \<le> begin_index s"
      and e: "end_index s = begin_index s + int (count s)"
      and lt: "nat (end_index s) < length ?view"
      and box: "bounding_box s = foldl combine Inverse (run_points ?view s)"
      unfolding section_of_view_def by blast+
    have lt': "nat (begin_index s) + count s < length ?view"
      using b e lt by linarith
    have pts: "\<forall>p \<in> set (run_points ?view s). length p = PD"
      using dims by (auto simp add: run_points_def dest: in_set_takeD in_set_dropD)
    have inside: "within_box (?view ! j) (bounding_box s)"
      if "nat (begin_index s) \<le> j" "j \<le> nat (begin_index s) + count s" for j
    proof -
      have "?view ! j \<in> set (run_points ?view s)"
        using that lt' by (rule run_points_mem)
      then show ?thesis
        unfolding box
        using foldl_combine_within [of PD Inverse "run_points ?view s"] pts
        by (simp add: box_dimension_def)
    qed
    have "within_box (?view ! nat i) (bounding_box s)
          \<and> within_box (?view ! Suc (nat i)) (bounding_box s)"
      if "begin_index s \<le> i" "i < end_index s" for i
    proof -
      have "nat (begin_index s) \<le> nat i" "Suc (nat i) \<le> nat (begin_index s) + count s"
        using that b e by linarith+
      then show ?thesis
        using inside [of "nat i"] inside [of "Suc (nat i)"] by simp
    qed
    then show ?thesis
      using box by (simp add: run_points_def assign_inverse_def)
  qed
  then show ?thesis
    using res by blast
qed

theorem bounding_box_containment_witness:
  "map bounding_box (sectionalize_range (=) 2 2 10 Open square_ring [] (-1) (-1))
     = [Box [0, 0] [0, 10], Box [0, 10] [10, 10], Box [10, 0] [10, 10], Box [0, 0] [10, 0] ]
   \<and> within_box (closeable_view Open square_ring ! 3)
        (bounding_box (sectionalize_range (=) 2 2 10 Open square_ring [] (-1) (-1) ! 3))
   \<and> within_box (closeable_view Open square_ring ! 4)
        (bounding_box (sectionalize_range (=) 2 2 10 Open square_ring [] (-1) (-1) ! 3))"
proof -
  let ?ss = "sectionalize_range (=) 2 2 10 Open square_ring [] (-1) (-1)"
  have boxes: "map bounding_box ?ss
     = [Box [0, 0] [0, 10], Box [0, 10] [10, 10], Box [10, 0] [10, 10], Box [0, 0] [10, 0] ]"
    by code_simp
  have len: "length ?ss = 4"
    by code_simp
  have s3: "begin_index (?ss ! 3) \<le> 3" "3 < end_index (?ss ! 3)"
    by code_simp+
  have dims: "\<forall>p \<in> set square_ring. length p = 2"
    by (simp add: square_ring_def)
  obtain new where new: "?ss = [] @ new"
    and every: "\<forall>s \<in> set new.
           bounding_box s
             = foldl combine assign_inverse
                 (take (Suc (count s)) (drop (nat (begin_index s)) (closeable_view Open square_ring)))
           \<and> (\<forall>i. begin_index s \<le> i \<and> i < end_index s \<longrightarrow>
                 within_box (closeable_view Open square_ring ! nat i) (bounding_box s)
                 \<and> within_box (closeable_view Open square_ring ! Suc (nat i)) (bounding_box s))"
    using bounding_box_containment [OF dims, of "(=)" 2 10 Open "[]" "-1" "-1"]
    by (elim exE conjE) (rule that; assumption)
  have eq: "new = ?ss" using new by simp
  have "?ss ! 3 \<in> set new" using len unfolding eq by simp
  then have "within_box (closeable_view Open square_ring ! nat 3) (bounding_box (?ss ! 3))
      \<and> within_box (closeable_view Open square_ring ! Suc (nat 3)) (bounding_box (?ss ! 3))"
    using every s3 by blast
  then show ?thesis using boxes by (simp add: eval_nat_numeral)
qed

lemma sectionalize_range_unchanged:
  "length (closeable_view Closure rng) \<le> 1 \<Longrightarrow>
   sectionalize_range equals PD D MaxCount Closure rng sections ring_idx multi_idx = sections"
  by (auto simp add: sectionalize_range_def Let_def le_Suc_eq)

text \<open>
  Claim C6, which fails as stated: a ring of one point whose closing point is appended
  is viewed as two points, and the segment between them gives one duplicate section.
\<close>

theorem one_point_open_ring_counterexample:
  "map (\<lambda>s. (begin_index s, end_index s, count s, duplicate s))
       (sectionalize_range (=) 2 2 10 Open [ [3, 4] ] [] (-1) (-1))
     = [(0, 1, 1, True)]"
  by code_simp

text \<open>
  Claim C6, amended. A range whose view has zero points or one point leaves the
  collection as it is, which is a result and not an error. So does every range of zero
  points, and every range of one point that is viewed without an appended closing point,
  as a line is: \<^verbatim>\<open>sectionalize\<close> gives no section for a line of at most one point.
\<close>

theorem degenerate_ranges:
  "(length (closeable_view Closure rng) \<le> 1 \<longrightarrow>
      sectionalize_range equals PD D MaxCount Closure rng sections ring_idx multi_idx = sections)
   \<and> sectionalize_range equals PD D MaxCount Closure [] sections ring_idx multi_idx = sections
   \<and> sectionalize_range equals PD D MaxCount Closed [p] sections ring_idx multi_idx = sections
   \<and> (length ls \<le> 1 \<longrightarrow> sectionalize equals PD D (Linestring ls) old = [])"
proof -
  have "sectionalize equals PD D (Linestring ls) old = []" if "length ls \<le> 1"
  proof -
    have "length (closeable_view Closed ls) \<le> 1"
      using that by (simp add: closeable_view_def)
    then show ?thesis
      by (simp add: sectionalize_def set_section_unique_ids_def sectionalize_range_unchanged)
  qed
  moreover have "length (closeable_view Closure []) \<le> 1" "length (closeable_view Closed [p]) \<le> 1"
    by (simp_all add: closeable_view_def split: closure_selector.splits)
  ultimately show ?thesis
    by (simp add: sectionalize_range_unchanged)
qed

theorem degenerate_ranges_witness:
  "length (closeable_view Closed [ [3, 4] ]) \<le> 1
   \<and> sectionalize_range (=) 2 2 10 Closed [ [3, 4] ] [] (-1) (-1) = []
   \<and> sectionalize (=) 2 2 (Linestring [ [3, 4] ]) [] = []"
proof -
  have v: "length (closeable_view Closed [ [3, 4] ]) \<le> 1"
    by (simp add: closeable_view_def)
  have l: "length [ [3, 4 :: int] ] \<le> 1" by simp
  show ?thesis
    using v l degenerate_ranges [of Closed "[ [3, 4] ]" "(=)" 2 2 10 "[]" "-1" "-1" "[3, 4]" "[ [3, 4] ]" "[]"]
    by blast
qed

subsection \<open>Duplicates\<close>

lemma classify_segment_moving:
  assumes "get_direction_loop seg 0 D (replicate D 0) ! 0 \<noteq> 0"
  shows "classify_segment equals PD D seg = (False, segment_directions D seg)"
  using assms by (simp add: classify_segment_def Let_def get_direction_loop_eq)

lemma classify_segment_checked:
  assumes "get_direction_loop seg 0 D (replicate D 0) ! 0 = 0"
  shows "classify_segment equals PD D seg =
           (if \<forall>d<PD. equals (coordinate_minus (snd seg ! d) (fst seg ! d)) 0
            then (True, replicate D (-99)) else (False, segment_directions D seg))"
  using assms
  by (simp add: classify_segment_def Let_def get_direction_loop_eq check_duplicate_loop_iff
        assign_loop_eq segment_directions_def)

lemma body_starts_section:
  assumes cl: "classify_segment equals PD D (previous, it) = (dup, dc)"
    and fresh: "count sec = 0 \<longrightarrow> sec = section_ctor D"
    and differs: "0 < count sec \<longrightarrow> dc \<noteq> directions sec \<or> MaxCount < count sec"
    and len: "length (directions sec) = D"
  shows "sectionalize_part_body equals PD D MaxCount n ring_idx multi_idx previous it
           (sections, sec, index, ndi)
         = (if 0 < count sec then sections @ [sec] else sections,
            one_segment_section n ring_idx multi_idx index ndi dup dc previous it,
            index, if dup then ndi else ndi + 1)"
proof -
  have dl: "length dc = D" by (rule classify_segment_length [OF cl])
  have cmp: "compare_loop dc (directions sec) 0 D \<longleftrightarrow> dc = directions sec"
    using dl len by (simp add: compare_loop_eq)
  have started: "append_segment index it
       (start_section D n ring_idx multi_idx index ndi dup dc previous (section_ctor D))
     = one_segment_section n ring_idx multi_idx index ndi dup dc previous it"
    using dl
    by (simp add: append_segment_def start_section_def section_ctor_def
          one_segment_section_def copy_loop_eq assign_inverse_def)
  show ?thesis
  proof (cases "count sec = 0")
    case True
    then have "sec = section_ctor D" using fresh by simp
    then show ?thesis
      using cl True started
      by (simp add: sectionalize_part_body_def flush_section_def)
  next
    case False
    then have "\<not> compare_loop dc (directions sec) 0 D \<or> MaxCount < count sec"
      using differs cmp by simp
    then show ?thesis
      using cl False started
      by (auto simp add: sectionalize_part_body_def flush_section_def)
  qed
qed

lemma body_extends_section:
  assumes cl: "classify_segment equals PD D (previous, it) = (dup, dc)"
    and same: "dc = directions sec"
    and cnt: "0 < count sec" "count sec \<le> MaxCount"
  shows "sectionalize_part_body equals PD D MaxCount n ring_idx multi_idx previous it
           (sections, sec, index, ndi)
         = (sections,
            sec\<lparr> bounding_box := combine (bounding_box sec) it,
                 end_index := index + 1,
                 count := count sec + 1 \<rparr>,
            index, if dup then ndi else ndi + 1)"
proof -
  have "length dc = D" by (rule classify_segment_length [OF cl])
  then have "compare_loop dc (directions sec) 0 D"
    using same by (simp add: compare_loop_eq)
  then show ?thesis
    using cl cnt
    by (simp add: sectionalize_part_body_def flush_section_def start_section_def
          append_segment_def)
qed

text \<open>
  Claim C4, which fails as stated: of twelve consecutive zero-length segments the first
  eleven make one duplicate section and the twelfth starts another, so the segments
  with the indices 10 and 11 are consecutive duplicates in different sections.
\<close>

theorem consecutive_duplicates_counterexample:
  "map (\<lambda>s. (begin_index s, end_index s, duplicate s))
       (sectionalize (=) 2 2 (Linestring repeated_point_line) [])
     = [(0, 11, True), (11, 12, True)]"
  by code_simp

text \<open>
  Claim C4, amended. The duplicate check is not consulted when the direction class of
  dimension 0 is not 0; when it is 0, the segment is a duplicate exactly when \<open>equals\<close>
  holds of the coordinate difference and zero in every one of the \<open>PointDimension\<close>
  dimensions of the point, whatever \<open>DimensionCount\<close> is. The direction classes of a
  duplicate are all the sentinel -99, those of any other segment are its signs. With at
  least one tracked dimension, a segment that is not a duplicate and follows a duplicate
  section makes the builder push that section and start a new one with it; a duplicate
  that follows a duplicate section is appended to that section, unless the section
  already holds more than \<open>MaxCount\<close> segments: then the builder pushes the section and
  starts a new duplicate section with the segment.
\<close>

theorem duplicate_detector:
  "(get_direction_loop seg 0 D (replicate D 0) ! 0 \<noteq> 0 \<longrightarrow>
      classify_segment equals PD D seg = (False, get_direction_loop seg 0 D (replicate D 0)))
   \<and> (get_direction_loop seg 0 D (replicate D 0) ! 0 = 0 \<longrightarrow>
        fst (classify_segment equals PD D seg)
          = (\<forall>d<PD. equals (coordinate_minus (snd seg ! d) (fst seg ! d)) 0))
   \<and> (fst (classify_segment equals PD D seg) \<longrightarrow>
        snd (classify_segment equals PD D seg) = replicate D (-99))
   \<and> (\<not> fst (classify_segment equals PD D seg) \<longrightarrow>
        snd (classify_segment equals PD D seg) = segment_directions D seg)
   \<and> (0 < D \<and> 0 < count sec \<and> directions sec = replicate D (-99)
        \<and> \<not> fst (classify_segment equals PD D (previous, it)) \<longrightarrow>
        sectionalize_part_body equals PD D MaxCount n ring_idx multi_idx previous it
          (sections, sec, index, ndi)
        = (sections @ [sec],
           one_segment_section n ring_idx multi_idx index ndi False
             (segment_directions D (previous, it)) previous it,
           index, ndi + 1))
   \<and> (0 < count sec \<and> count sec \<le> MaxCount \<and> directions sec = replicate D (-99)
        \<and> fst (classify_segment equals PD D (previous, it)) \<longrightarrow>
        sectionalize_part_body equals PD D MaxCount n ring_idx multi_idx previous it
          (sections, sec, index, ndi)
        = (sections,
           sec\<lparr> bounding_box := combine (bounding_box sec) it,
                end_index := index + 1,
                count := count sec + 1 \<rparr>,
           index, ndi))
   \<and> (MaxCount < count sec \<and> directions sec = replicate D (-99)
        \<and> fst (classify_segment equals PD D (previous, it)) \<longrightarrow>
        sectionalize_part_body equals PD D MaxCount n ring_idx multi_idx previous it
          (sections, sec, index, ndi)
        = (sections @ [sec],
           one_segment_section n ring_idx multi_idx index ndi True (replicate D (-99))
             previous it,
           index, ndi))"
proof -
  obtain dup dc where cl: "classify_segment equals PD D seg = (dup, dc)"
    by (cases "classify_segment equals PD D seg") auto
  have moving: "get_direction_loop seg 0 D (replicate D 0) ! 0 \<noteq> 0 \<longrightarrow>
      classify_segment equals PD D seg = (False, get_direction_loop seg 0 D (replicate D 0))"
    using classify_segment_moving [of seg D equals PD] by (simp add: get_direction_loop_eq)
  have checked: "get_direction_loop seg 0 D (replicate D 0) ! 0 = 0 \<longrightarrow>
        fst (classify_segment equals PD D seg)
          = (\<forall>d<PD. equals (coordinate_minus (snd seg ! d) (fst seg ! d)) 0)"
    using classify_segment_checked [of seg D equals PD] by simp
  have sentinel: "fst (classify_segment equals PD D seg) \<longrightarrow>
        snd (classify_segment equals PD D seg) = replicate D (-99)"
    and signs: "\<not> fst (classify_segment equals PD D seg) \<longrightarrow>
        snd (classify_segment equals PD D seg) = segment_directions D seg"
    using classify_segment_cases [OF cl] cl by simp_all
  have fresh: "sectionalize_part_body equals PD D MaxCount n ring_idx multi_idx previous it
          (sections, sec, index, ndi)
        = (sections @ [sec],
           one_segment_section n ring_idx multi_idx index ndi False
             (segment_directions D (previous, it)) previous it,
           index, ndi + 1)"
    if h: "0 < D" "0 < count sec" "directions sec = replicate D (-99)"
      "\<not> fst (classify_segment equals PD D (previous, it))"
  proof -
    obtain dc' where cl': "classify_segment equals PD D (previous, it) = (False, dc')"
      using h(4) by (cases "classify_segment equals PD D (previous, it)") auto
    have dc': "dc' = segment_directions D (previous, it)"
      using classify_segment_cases [OF cl'] by simp
    have "dc' \<noteq> directions sec"
      using segment_directions_sentinel [of D "(previous, it)"] h(1,3) dc' by auto
    then show ?thesis
      using body_starts_section [OF cl', of sec MaxCount n ring_idx multi_idx sections index ndi]
        h(2,3) dc'
      by simp
  qed
  have same: "sectionalize_part_body equals PD D MaxCount n ring_idx multi_idx previous it
          (sections, sec, index, ndi)
        = (sections,
           sec\<lparr> bounding_box := combine (bounding_box sec) it,
                end_index := index + 1,
                count := count sec + 1 \<rparr>,
           index, ndi)"
    if h: "0 < count sec" "count sec \<le> MaxCount" "directions sec = replicate D (-99)"
      "fst (classify_segment equals PD D (previous, it))"
  proof -
    obtain dc' where cl': "classify_segment equals PD D (previous, it) = (True, dc')"
      using h(4) by (cases "classify_segment equals PD D (previous, it)") auto
    have "dc' = directions sec"
      using classify_segment_cases [OF cl'] h(3) by simp
    then show ?thesis
      using body_extends_section [OF cl' _ h(1,2), of n ring_idx multi_idx sections index ndi]
      by simp
  qed
  have capped: "sectionalize_part_body equals PD D MaxCount n ring_idx multi_idx previous it
          (sections, sec, index, ndi)
        = (sections @ [sec],
           one_segment_section n ring_idx multi_idx index ndi True (replicate D (-99))
             previous it,
           index, ndi)"
    if h: "MaxCount < count sec" "directions sec = replicate D (-99)"
      "fst (classify_segment equals PD D (previous, it))"
  proof -
    obtain dc' where cl': "classify_segment equals PD D (previous, it) = (True, dc')"
      using h(3) by (cases "classify_segment equals PD D (previous, it)") auto
    have dc': "dc' = replicate D (-99)"
      using classify_segment_cases [OF cl'] by simp
    show ?thesis
      using body_starts_section [OF cl', of sec MaxCount n ring_idx multi_idx sections index ndi]
        h(1,2) dc'
      by simp
  qed
  show ?thesis
    by (intro conjI impI)
      (use moving checked sentinel signs fresh same capped in \<open>simp_all\<close>)
qed

theorem duplicate_detector_witness:
  "classify_segment (=) 2 1 ([7, 7], [7, 9]) = (False, [0])
   \<and> classify_segment (=) 2 1 ([7, 7], [7, 7]) = (True, [-99])
   \<and> sectionalize_part_body (=) 2 2 10 3 (-1) (-1) [7, 7] [7, 7]
        ([], section_ctor 2, 0, 0) = ([], duplicate_section, 0, 0)
   \<and> sectionalize_part_body (=) 2 2 10 3 (-1) (-1) [7, 7] [8, 8] ([], duplicate_section, 1, 0)
       = ([duplicate_section],
          one_segment_section 3 (-1) (-1) 1 0 False [1, 1] [7, 7] [8, 8], 1, 1)
   \<and> sectionalize_part_body (=) 2 2 10 3 (-1) (-1) [7, 7] [7, 7] ([], duplicate_section, 1, 0)
       = ([], duplicate_section\<lparr> bounding_box := combine (bounding_box duplicate_section) [7, 7],
                                end_index := 2, count := 2 \<rparr>, 1, 0)
   \<and> sectionalize_part_body (=) 2 2 0 3 (-1) (-1) [7, 7] [7, 7] ([], duplicate_section, 1, 0)
       = ([duplicate_section],
          one_segment_section 3 (-1) (-1) 1 0 True [-99, -99] [7, 7] [7, 7], 1, 0)"
proof -
  note t1 = duplicate_detector [of "([7, 7], [7, 9])" 1 "(=)" 2]
  note t2 = duplicate_detector [of "([7, 7], [7, 7])" 1 "(=)" 2]
  note t3 = duplicate_detector [of _ 2 "(=)" 2 duplicate_section "[7, 7]" "[8, 8]" 10 3 "-1" "-1"
        "[]" 1 0]
  note t4 = duplicate_detector [of _ 2 "(=)" 2 duplicate_section "[7, 7]" "[7, 7]" 10 3 "-1" "-1"
        "[]" 1 0]
  note t5 = duplicate_detector [of _ 2 "(=)" 2 duplicate_section "[7, 7]" "[7, 7]" 0 3 "-1" "-1"
        "[]" 1 0]
  have a: "get_direction_loop ([7, 7], [7, 9]) 0 1 (replicate 1 0) ! 0 = 0"
    "get_direction_loop ([7, 7], [7, 7]) 0 1 (replicate 1 0) ! 0 = 0"
    by code_simp+
  have b: "\<not> (\<forall>d<2. coordinate_minus (snd ([7, 7], [7, 9]) ! d) (fst ([7, 7], [7, 9]) ! d) = 0)"
    by (auto intro!: exI [of _ 1] simp add: coordinate_minus_def)
  have c: "\<forall>d<2. coordinate_minus (snd ([7, 7], [7, 7]) ! d) (fst ([7, 7], [7, 7]) ! d) = 0"
    by (simp add: less_Suc_eq eval_nat_numeral)
  have s1: "segment_directions 1 ([7, 7], [7, 9]) = [0]"
    "segment_directions 2 ([7, 7], [8, 8]) = [1, 1]"
    by code_simp+
  have f1: "\<not> fst (classify_segment (=) 2 1 ([7, 7], [7, 9]))"
    using t1 [THEN conjunct2, THEN conjunct1] a(1) b by simp
  then have "snd (classify_segment (=) 2 1 ([7, 7], [7, 9])) = [0]"
    using t1 [THEN conjunct2, THEN conjunct2, THEN conjunct2, THEN conjunct1] s1(1) by simp
  then have first: "classify_segment (=) 2 1 ([7, 7], [7, 9]) = (False, [0])"
    using f1 by (simp add: prod_eq_iff)
  have f2: "fst (classify_segment (=) 2 1 ([7, 7], [7, 7]))"
    using t2 [THEN conjunct2, THEN conjunct1] a(2) c by simp
  then have "snd (classify_segment (=) 2 1 ([7, 7], [7, 7])) = [-99]"
    using t2 [THEN conjunct2, THEN conjunct2, THEN conjunct1] by simp
  then have second: "classify_segment (=) 2 1 ([7, 7], [7, 7]) = (True, [-99])"
    using f2 by (simp add: prod_eq_iff)
  have start: "sectionalize_part_body (=) 2 2 10 3 (-1) (-1) [7, 7] [7, 7]
        ([], section_ctor 2, 0, 0) = ([], duplicate_section, 0, 0)"
    by code_simp
  have d: "0 < count duplicate_section" "count duplicate_section \<le> 10"
    "directions duplicate_section = replicate 2 (-99)"
    "\<not> fst (classify_segment (=) 2 2 ([7, 7], [8, 8]))"
    "fst (classify_segment (=) 2 2 ([7, 7], [7, 7]))"
    by code_simp+
  have push: "sectionalize_part_body (=) 2 2 10 3 (-1) (-1) [7, 7] [8, 8]
        ([], duplicate_section, 1, 0)
       = ([duplicate_section],
          one_segment_section 3 (-1) (-1) 1 0 False [1, 1] [7, 7] [8, 8], 1, 1)"
    using t3 [THEN conjunct2, THEN conjunct2, THEN conjunct2, THEN conjunct2, THEN conjunct1]
      d(1,3,4) s1(2)
    by simp
  have keep: "sectionalize_part_body (=) 2 2 10 3 (-1) (-1) [7, 7] [7, 7]
        ([], duplicate_section, 1, 0)
       = ([], duplicate_section\<lparr> bounding_box := combine (bounding_box duplicate_section) [7, 7],
                                end_index := 2, count := 2 \<rparr>, 1, 0)"
    using t4 [THEN conjunct2, THEN conjunct2, THEN conjunct2, THEN conjunct2, THEN conjunct2,
        THEN conjunct1]
      d(1,2,3,5)
    by (simp add: duplicate_section_def one_segment_section_def)
  have cap: "sectionalize_part_body (=) 2 2 0 3 (-1) (-1) [7, 7] [7, 7]
        ([], duplicate_section, 1, 0)
       = ([duplicate_section],
          one_segment_section 3 (-1) (-1) 1 0 True [-99, -99] [7, 7] [7, 7], 1, 0)"
    using t5 [THEN conjunct2, THEN conjunct2, THEN conjunct2, THEN conjunct2, THEN conjunct2,
        THEN conjunct2]
      d(1,3,5)
    by (simp add: eval_nat_numeral)
  show ?thesis
    by (intro conjI) (fact first second start push keep cap)+
qed

subsection \<open>Boxes\<close>

lemma segment_directions_2d:
  assumes "D \<le> 2"
  shows "segment_directions D ([a, b], [c, d])
           = take D [sgn (coordinate_minus c a), sgn (coordinate_minus d b)]"
proof -
  have "D = 0 \<or> D = 1 \<or> D = 2" using assms by linarith
  then show ?thesis
    by (auto simp add: segment_directions_def eval_nat_numeral)
qed

lemma take_heads_differ: "0 < D \<Longrightarrow> a \<noteq> c \<Longrightarrow> take D (a # xs) \<noteq> take D (c # ys)"
  by (cases D) simp_all

lemma box_side_moving:
  assumes "0 < D" "D \<le> 2" "coordinate_minus c a \<noteq> 0"
  shows "classify_segment equals 2 D ([a, b], [c, d])
           = (False, take D [sgn (coordinate_minus c a), sgn (coordinate_minus d b)])"
proof -
  have "segment_directions D ([a, b], [c, d]) ! 0 = sgn (coordinate_minus c a)"
    using assms(1) by (simp add: segment_directions_def)
  then have "get_direction_loop ([a, b], [c, d]) 0 D (replicate D 0) ! 0 \<noteq> 0"
    using assms(3) by (simp add: get_direction_loop_eq sgn_if)
  then show ?thesis
    using classify_segment_moving segment_directions_2d [OF assms(2)] by simp
qed

lemma box_side_upright:
  assumes "0 < D" "D \<le> 2" "\<not> equals (coordinate_minus d b) 0"
  shows "classify_segment equals 2 D ([a, b], [a, d])
           = (False, take D [0, sgn (coordinate_minus d b)])"
proof -
  have "segment_directions D ([a, b], [a, d]) ! 0 = 0"
    using assms(1) by (simp add: segment_directions_def)
  then have zero: "get_direction_loop ([a, b], [a, d]) 0 D (replicate D 0) ! 0 = 0"
    by (simp add: get_direction_loop_eq)
  have "\<not> (\<forall>k<2. equals (coordinate_minus (snd ([a, b], [a, d]) ! k)
                                          (fst ([a, b], [a, d]) ! k)) 0)"
    using assms(3) by (auto intro: exI [of _ 1])
  then show ?thesis
    using classify_segment_checked [OF zero, of equals 2]
      segment_directions_2d [OF assms(2), of a b a d]
    by simp
qed

lemma sectionalize_box_sides:
  assumes D: "0 < D" "D \<le> 2"
    and x: "coordinate_minus (max_corner b ! 0) (min_corner b ! 0) \<noteq> 0"
      "coordinate_minus (min_corner b ! 0) (max_corner b ! 0) \<noteq> 0"
    and y: "\<not> equals (coordinate_minus (max_corner b ! 1) (min_corner b ! 1)) 0"
      "\<not> equals (coordinate_minus (min_corner b ! 1) (max_corner b ! 1)) 0"
  shows "sectionalize_box equals D MaxCount b sections = sections @ box_side_sections D b"
proof -
  define x1 y1 x2 y2 where c: "x1 = min_corner b ! 0" "y1 = min_corner b ! 1"
    "x2 = max_corner b ! 0" "y2 = max_corner b ! 1"
  define s0 where "s0 = one_segment_section 5 (-1) (-1) 0 0 False
            (take D [0, sgn (coordinate_minus y2 y1)]) [x1, y1] [x1, y2]"
  define s1 where "s1 = one_segment_section 5 (-1) (-1) 1 1 False
            (take D [sgn (coordinate_minus x2 x1), 0]) [x1, y2] [x2, y2]"
  define s2 where "s2 = one_segment_section 5 (-1) (-1) 2 2 False
            (take D [0, sgn (coordinate_minus y1 y2)]) [x2, y2] [x2, y1]"
  define s3 where "s3 = one_segment_section 5 (-1) (-1) 3 3 False
            (take D [sgn (coordinate_minus x1 x2), 0]) [x2, y1] [x1, y1]"
  have pts: "box_points b = [ [x1, y1], [x1, y2], [x2, y2], [x2, y1], [x1, y1] ]"
    by (simp add: box_points_def assign_box_corners_def c)
  have sides: "box_side_sections D b = [s0, s1, s2, s3]"
    by (simp add: box_side_sections_def Let_def c s0_def s1_def s2_def s3_def)
  have xs: "coordinate_minus x2 x1 \<noteq> 0" "coordinate_minus x1 x2 \<noteq> 0" using x c by simp_all
  have ys: "\<not> equals (coordinate_minus y2 y1) 0" "\<not> equals (coordinate_minus y1 y2) 0"
    using y c by simp_all
  have cl0: "classify_segment equals 2 D ([x1, y1], [x1, y2])
      = (False, take D [0, sgn (coordinate_minus y2 y1)])"
    using box_side_upright [of D equals y2 y1 x1] D ys(1) by simp
  have cl1: "classify_segment equals 2 D ([x1, y2], [x2, y2])
      = (False, take D [sgn (coordinate_minus x2 x1), 0])"
    using box_side_moving [of D x2 x1 equals y2 y2] D xs(1) by simp
  have cl2: "classify_segment equals 2 D ([x2, y2], [x2, y1])
      = (False, take D [0, sgn (coordinate_minus y1 y2)])"
    using box_side_upright [of D equals y1 y2 x2] D ys(2) by simp
  have cl3: "classify_segment equals 2 D ([x2, y1], [x1, y1])
      = (False, take D [sgn (coordinate_minus x1 x2), 0])"
    using box_side_moving [of D x1 x2 equals y1 y1] D xs(2) by simp
  have nz: "sgn (coordinate_minus x2 x1) \<noteq> 0" "sgn (coordinate_minus x1 x2) \<noteq> 0"
    using xs by (simp_all add: sgn_if)
  have cnt: "count s0 = 1" "count s1 = 1" "count s2 = 1" "count s3 = 1"
    and dirs: "directions s0 = take D [0, sgn (coordinate_minus y2 y1)]"
      "directions s1 = take D [sgn (coordinate_minus x2 x1), 0]"
      "directions s2 = take D [0, sgn (coordinate_minus y1 y2)]"
      "directions s3 = take D [sgn (coordinate_minus x1 x2), 0]"
    by (simp_all add: s0_def s1_def s2_def s3_def one_segment_section_def)
  have lens: "length (directions (section_ctor D)) = D" "length (directions s0) = D"
    "length (directions s1) = D" "length (directions s2) = D"
    using D dirs by (simp_all add: section_ctor_def)
  have b0: "sectionalize_part_body equals 2 D MaxCount 5 (-1) (-1) [x1, y1] [x1, y2]
              (sections, section_ctor D, 0, 0) = (sections, s0, 0, 1)"
    using body_starts_section [OF cl0 _ _ lens(1), of MaxCount 5 "-1" "-1" sections 0 0]
    by (simp add: section_ctor_def s0_def)
  have b1: "sectionalize_part_body equals 2 D MaxCount 5 (-1) (-1) [x1, y2] [x2, y2]
              (sections, s0, 1, 1) = (sections @ [s0], s1, 1, 2)"
    using body_starts_section [OF cl1 _ _ lens(2), of MaxCount 5 "-1" "-1" sections 1 1]
      cnt(1) dirs(1) nz(1) take_heads_differ [OF D(1), of "sgn (coordinate_minus x2 x1)" 0]
    by (simp add: s1_def)
  have b2: "sectionalize_part_body equals 2 D MaxCount 5 (-1) (-1) [x2, y2] [x2, y1]
              (sections @ [s0], s1, 2, 2) = (sections @ [s0, s1], s2, 2, 3)"
    using body_starts_section [OF cl2 _ _ lens(3), of MaxCount 5 "-1" "-1" "sections @ [s0]" 2 2]
      cnt(2) dirs(2) nz(1) take_heads_differ [OF D(1), of 0 "sgn (coordinate_minus x2 x1)"]
    by (simp add: s2_def)
  have b3: "sectionalize_part_body equals 2 D MaxCount 5 (-1) (-1) [x2, y1] [x1, y1]
              (sections @ [s0, s1], s2, 3, 3) = (sections @ [s0, s1, s2], s3, 3, 4)"
    using body_starts_section [OF cl3 _ _ lens(4), of MaxCount 5 "-1" "-1" "sections @ [s0, s1]" 3 3]
      cnt(3) dirs(3) nz(2) take_heads_differ [OF D(1), of "sgn (coordinate_minus x1 x2)" 0]
    by (simp add: s3_def)
  have five: "Suc (Suc (Suc (Suc (Suc 0)))) = 5" by simp
  have "sectionalize_part equals 2 D MaxCount (sections, section_ctor D, 0, 0)
          [ [x1, y1], [x1, y2], [x2, y2], [x2, y1], [x1, y1] ] (-1) (-1)
        = (sections @ [s0, s1, s2], s3, 4, 4)"
    by (simp add: sectionalize_part_def five b0 b1 b2 b3)
  then show ?thesis
    using cnt(4)
    by (simp add: sectionalize_box_def sectionalize_range_def closeable_view_def pts sides)
qed

lemma perpendicular_sides:
  assumes "D \<le> 2"
  shows "perpendicular (take D [0, a]) (take D [b, 0])"
    and "perpendicular (take D [b, 0]) (take D [0, a])"
proof -
  have "D = 0 \<or> D = 1 \<or> D = 2" using assms by linarith
  then show "perpendicular (take D [0, a]) (take D [b, 0])"
    and "perpendicular (take D [b, 0]) (take D [0, a])"
    by (auto simp add: perpendicular_def dot_product_def eval_nat_numeral)
qed

lemma opposite_sides_not_perpendicular:
  assumes "a \<noteq> 0" "b \<noteq> 0"
  shows "\<not> perpendicular (take 2 [0, sgn a]) (take 2 [0, sgn b])"
    and "\<not> perpendicular (take 2 [sgn a, 0]) (take 2 [sgn b, 0])"
  using assms by (simp_all add: perpendicular_def dot_product_def sgn_if)

text \<open>
  Claim C5, which fails as stated: the direction vectors of the four sides of a box are
  not mutually perpendicular, since with two tracked dimensions those of opposite sides
  are not.
\<close>

theorem opposite_sides_counterexample:
  "map directions (sectionalize (=) 2 2 (Box_geometry unit_box) [])
     = [ [0, 1], [1, 0], [0, -1], [-1, 0] ]
   \<and> dot_product (directions (sectionalize (=) 2 2 (Box_geometry unit_box) [] ! 0))
        (directions (sectionalize (=) 2 2 (Box_geometry unit_box) [] ! 2)) = -1
   \<and> \<not> perpendicular (directions (sectionalize (=) 2 2 (Box_geometry unit_box) [] ! 0))
          (directions (sectionalize (=) 2 2 (Box_geometry unit_box) [] ! 2))"
  by code_simp

text \<open>
  Claim C5, amended. The box sectionizer hands the range sectionizer the closed ring of
  the five points lower left, upper left, upper right, lower right, lower left, with
  ring index -1. With one or two tracked dimensions, for a box whose corner coordinates
  a 32-bit \<^verbatim>\<open>int\<close> holds, whose corners differ in both coordinates, and whose second
  coordinates \<open>equals\<close> does not take for equal, it appends exactly four sections, each
  with \<open>count = 1\<close>, ring index -1 and \<open>duplicate = false\<close>. The direction vectors of
  consecutive sides, the last and the first included, are perpendicular; with two
  tracked dimensions those of opposite sides are not.
\<close>

theorem box_decomposition:
  assumes "0 < D" "D \<le> 2"
    and "representable_box b"
    and "min_corner b ! 0 \<noteq> max_corner b ! 0"
    and "min_corner b ! 1 \<noteq> max_corner b ! 1"
    and "\<not> equals (coordinate_minus (max_corner b ! 1) (min_corner b ! 1)) 0"
    and "\<not> equals (coordinate_minus (min_corner b ! 1) (max_corner b ! 1)) 0"
  shows "box_points b
           = [ [min_corner b ! 0, min_corner b ! 1], [min_corner b ! 0, max_corner b ! 1],
              [max_corner b ! 0, max_corner b ! 1], [max_corner b ! 0, min_corner b ! 1],
              [min_corner b ! 0, min_corner b ! 1] ]
    \<and> sectionalize_box equals D MaxCount b sections = sections @ box_side_sections D b
    \<and> length (box_side_sections D b) = 4
    \<and> (\<forall>s \<in> set (box_side_sections D b).
          count s = 1 \<and> ring_index s = -1 \<and> multi_index s = -1 \<and> \<not> duplicate s)
    \<and> map directions (box_side_sections D b)
        = [take D [0, sgn (coordinate_minus (max_corner b ! 1) (min_corner b ! 1))],
           take D [sgn (coordinate_minus (max_corner b ! 0) (min_corner b ! 0)), 0],
           take D [0, sgn (coordinate_minus (min_corner b ! 1) (max_corner b ! 1))],
           take D [sgn (coordinate_minus (min_corner b ! 0) (max_corner b ! 0)), 0] ]
    \<and> (\<forall>i<4. perpendicular (directions (box_side_sections D b ! i))
                 (directions (box_side_sections D b ! ((i + 1) mod 4))))
    \<and> (D = 2 \<longrightarrow>
          \<not> perpendicular (directions (box_side_sections D b ! 0))
               (directions (box_side_sections D b ! 2))
          \<and> \<not> perpendicular (directions (box_side_sections D b ! 1))
                 (directions (box_side_sections D b ! 3)))"
proof -
  have rep: "representable (min_corner b ! 0)" "representable (min_corner b ! 1)"
    "representable (max_corner b ! 0)" "representable (max_corner b ! 1)"
    using assms(3) by (simp_all add: representable_box_def)
  have nx: "coordinate_minus (max_corner b ! 0) (min_corner b ! 0) \<noteq> 0"
    "coordinate_minus (min_corner b ! 0) (max_corner b ! 0) \<noteq> 0"
    using coordinate_minus_nonzero rep(1,3) assms(4) by (metis, metis)
  have ny: "coordinate_minus (max_corner b ! 1) (min_corner b ! 1) \<noteq> 0"
    "coordinate_minus (min_corner b ! 1) (max_corner b ! 1) \<noteq> 0"
    using coordinate_minus_nonzero rep(2,4) assms(5) by (metis, metis)
  have pts: "box_points b
           = [ [min_corner b ! 0, min_corner b ! 1], [min_corner b ! 0, max_corner b ! 1],
              [max_corner b ! 0, max_corner b ! 1], [max_corner b ! 0, min_corner b ! 1],
              [min_corner b ! 0, min_corner b ! 1] ]"
    by (simp add: box_points_def assign_box_corners_def)
  have res: "sectionalize_box equals D MaxCount b sections = sections @ box_side_sections D b"
    using assms(1,2) nx assms(6,7) by (rule sectionalize_box_sides)
  have len: "length (box_side_sections D b) = 4"
    by (simp add: box_side_sections_def Let_def)
  have each: "\<forall>s \<in> set (box_side_sections D b).
          count s = 1 \<and> ring_index s = -1 \<and> multi_index s = -1 \<and> \<not> duplicate s"
    by (simp add: box_side_sections_def Let_def one_segment_section_def)
  have dirs: "map directions (box_side_sections D b)
        = [take D [0, sgn (coordinate_minus (max_corner b ! 1) (min_corner b ! 1))],
           take D [sgn (coordinate_minus (max_corner b ! 0) (min_corner b ! 0)), 0],
           take D [0, sgn (coordinate_minus (min_corner b ! 1) (max_corner b ! 1))],
           take D [sgn (coordinate_minus (min_corner b ! 0) (max_corner b ! 0)), 0] ]"
    by (simp add: box_side_sections_def Let_def one_segment_section_def)
  have nth: "directions (box_side_sections D b ! i) = map directions (box_side_sections D b) ! i"
    if "i < 4" for i
    using that len by simp
  have perp: "perpendicular (directions (box_side_sections D b ! i))
                 (directions (box_side_sections D b ! ((i + 1) mod 4)))" if "i < 4" for i
  proof -
    have "i = 0 \<or> i = 1 \<or> i = 2 \<or> i = 3" using that by linarith
    then show ?thesis
      using perpendicular_sides [OF assms(2)]
      by (auto simp add: nth dirs)
  qed
  have opposite: "\<not> perpendicular (directions (box_side_sections D b ! 0))
               (directions (box_side_sections D b ! 2))
          \<and> \<not> perpendicular (directions (box_side_sections D b ! 1))
                 (directions (box_side_sections D b ! 3))" if "D = 2"
  proof -
    have d: "directions (box_side_sections D b ! 0)
          = take D [0, sgn (coordinate_minus (max_corner b ! 1) (min_corner b ! 1))]"
      "directions (box_side_sections D b ! 1)
          = take D [sgn (coordinate_minus (max_corner b ! 0) (min_corner b ! 0)), 0]"
      "directions (box_side_sections D b ! 2)
          = take D [0, sgn (coordinate_minus (min_corner b ! 1) (max_corner b ! 1))]"
      "directions (box_side_sections D b ! 3)
          = take D [sgn (coordinate_minus (min_corner b ! 0) (max_corner b ! 0)), 0]"
      using nth [of 0] nth [of 1] nth [of 2] nth [of 3] by (simp_all add: dirs)
    show ?thesis
      using d opposite_sides_not_perpendicular(1) [OF ny]
        opposite_sides_not_perpendicular(2) [OF nx]
      unfolding that by simp
  qed
  show ?thesis
    by (intro conjI allI impI) (use pts res len each dirs perp opposite in \<open>simp_all\<close>)
qed

theorem box_decomposition_witness:
  "map (\<lambda>s. (count s, ring_index s, directions s)) (sectionalize_box (=) 2 10 unit_box [])
     = [(1, -1, [0, 1]), (1, -1, [1, 0]), (1, -1, [0, -1]), (1, -1, [-1, 0])]
   \<and> map (\<lambda>s. (count s, ring_index s, directions s)) (sectionalize_box (=) 1 10 unit_box [])
     = [(1, -1, [0]), (1, -1, [1]), (1, -1, [0]), (1, -1, [-1])]
   \<and> sectionalize_box (=) 2 10 unit_box [] = box_side_sections 2 unit_box
   \<and> sectionalize_box (=) 1 10 unit_box [] = box_side_sections 1 unit_box
   \<and> perpendicular (directions (box_side_sections 2 unit_box ! 3))
        (directions (box_side_sections 2 unit_box ! 0))
   \<and> perpendicular (directions (box_side_sections 1 unit_box ! 3))
        (directions (box_side_sections 1 unit_box ! 0))
   \<and> \<not> perpendicular (directions (box_side_sections 2 unit_box ! 0))
          (directions (box_side_sections 2 unit_box ! 2))"
proof -
  have h: "representable_box unit_box"
    "min_corner unit_box ! 0 \<noteq> max_corner unit_box ! 0"
    "min_corner unit_box ! 1 \<noteq> max_corner unit_box ! 1"
    "\<not> coordinate_minus (max_corner unit_box ! 1) (min_corner unit_box ! 1) = 0"
    "\<not> coordinate_minus (min_corner unit_box ! 1) (max_corner unit_box ! 1) = 0"
    by (simp_all add: unit_box_def representable_box_def representable_def coordinate_minus_def)
  have d2: "0 < (2 :: nat)" "(2 :: nat) \<le> 2" and d1: "0 < (1 :: nat)" "(1 :: nat) \<le> 2"
    by simp_all
  note t2 = box_decomposition [of 2 unit_box "(=)" 10 "[]", OF d2 h]
  note t1 = box_decomposition [of 1 unit_box "(=)" 10 "[]", OF d1 h]
  have c2: "map (\<lambda>s. (count s, ring_index s, directions s)) (sectionalize_box (=) 2 10 unit_box [])
     = [(1, -1, [0, 1]), (1, -1, [1, 0]), (1, -1, [0, -1]), (1, -1, [-1, 0])]"
    by code_simp
  have c1: "map (\<lambda>s. (count s, ring_index s, directions s)) (sectionalize_box (=) 1 10 unit_box [])
     = [(1, -1, [0]), (1, -1, [1]), (1, -1, [0]), (1, -1, [-1])]"
    by code_simp
  have r2: "sectionalize_box (=) 2 10 unit_box [] = box_side_sections 2 unit_box"
    using t2 [THEN conjunct2, THEN conjunct1] by simp
  have r1: "sectionalize_box (=) 1 10 unit_box [] = box_side_sections 1 unit_box"
    using t1 [THEN conjunct2, THEN conjunct1] by simp
  have "(3 :: nat) < 4 \<longrightarrow> perpendicular (directions (box_side_sections 2 unit_box ! 3))
        (directions (box_side_sections 2 unit_box ! ((3 + 1) mod 4)))"
    using t2 [THEN conjunct2, THEN conjunct2, THEN conjunct2, THEN conjunct2, THEN conjunct2,
        THEN conjunct1]
    by (rule spec)
  then have p2: "perpendicular (directions (box_side_sections 2 unit_box ! 3))
        (directions (box_side_sections 2 unit_box ! 0))"
    by simp
  have "(3 :: nat) < 4 \<longrightarrow> perpendicular (directions (box_side_sections 1 unit_box ! 3))
        (directions (box_side_sections 1 unit_box ! ((3 + 1) mod 4)))"
    using t1 [THEN conjunct2, THEN conjunct2, THEN conjunct2, THEN conjunct2, THEN conjunct2,
        THEN conjunct1]
    by (rule spec)
  then have p1: "perpendicular (directions (box_side_sections 1 unit_box ! 3))
        (directions (box_side_sections 1 unit_box ! 0))"
    by simp
  have o2: "\<not> perpendicular (directions (box_side_sections 2 unit_box ! 0))
          (directions (box_side_sections 2 unit_box ! 2))"
    using t2 [THEN conjunct2, THEN conjunct2, THEN conjunct2, THEN conjunct2, THEN conjunct2,
        THEN conjunct2]
    by simp
  show ?thesis
    by (intro conjI) (fact c2 c1 r2 r1 p2 p1 o2)+
qed

end
